theory Spec2Isabelle
  imports Main "HOL-Library.Sublist" "HOL-Library.Char_ord" "HOL-Library.List_Lexorder"
begin

section \<open>The migration store\<close>

text \<open>
  The migrator of \<^verbatim>\<open>src/migrate/index.js\<close> works on two tables: the table named by
  \<^verbatim>\<open>config.tableName\<close> (columns \<^verbatim>\<open>id\<close>, \<^verbatim>\<open>name\<close>, \<^verbatim>\<open>batch\<close>, \<^verbatim>\<open>migration_time\<close>) and its
  lock table (one column \<^verbatim>\<open>is_locked\<close>). A table that does not exist is \<open>None\<close>.
  Everything else a migration can touch is the component \<open>user_data\<close>.
\<close>

record migration_record =
  rec_id :: nat
  name :: string
  batch :: int
  migration_time :: int

record 'u database =
  migrations_table :: "migration_record list option"
  next_id :: nat
  lock_table :: "int list option"
  user_data :: 'u

text \<open>
  Errors. \<^verbatim>\<open>LockError\<close> is the constructor function at the top of the file (its
  \<^verbatim>\<open>name\<close> is "MigrationLocked"); \<open>DriverError\<close> is whatever the database driver
  rejects a statement with.
\<close>

datatype js_error =
    Error (message: string)
  | TypeError (message: string)
  | LockError (message: string)
  | DriverError (message: string)

fun instanceof_LockError :: "js_error \<Rightarrow> bool" where
  "instanceof_LockError (LockError m) = True"
| "instanceof_LockError e = False"

datatype direction = Up | Down

text \<open>
  A migration's \<^verbatim>\<open>up\<close> or \<^verbatim>\<open>down\<close> function: it changes the store and either fails
  (throws, or returns a promise that rejects) or returns; \<open>Inr True\<close> when what it
  returned is a promise, \<open>Inr False\<close> otherwise. A field that is not a function is
  \<open>None\<close>. \<open>transaction_cfg\<close> is \<^verbatim>\<open>config.transaction\<close> when it is a boolean.
\<close>

type_synonym 'u operation = "'u database \<Rightarrow> (js_error + bool) \<times> 'u database"

record 'u migration =
  up :: "'u operation option"
  down :: "'u operation option"
  transaction_cfg :: "bool option"

record 'u config =
  extension :: string
  loadExtensions :: "string list"
  tableName :: string
  directory :: string
  disableTransactions :: bool
  migrationModules :: "(string \<times> 'u migration) list"

text \<open>A caller's configuration object: any subset of the keys.\<close>

record 'u config_opts =
  opt_extension :: "string option"
  opt_loadExtensions :: "string list option"
  opt_tableName :: "string option"
  opt_directory :: "string option"
  opt_disableTransactions :: "bool option"
  opt_migrationModules :: "(string \<times> 'u migration) list option"

definition CONFIG_DEFAULT :: "'u config" where
  "CONFIG_DEFAULT = \<lparr>
     extension = ''js'',
     loadExtensions = [''.co'', ''.coffee'', ''.eg'', ''.iced'', ''.js'', ''.litcoffee'',
                       ''.ls'', ''.ts''],
     tableName = ''knex_migrations'',
     directory = ''./migrations'',
     disableTransactions = True,
     migrationModules = [] \<rparr>"

definition no_opts :: "'u config_opts" where
  "no_opts = \<lparr> opt_extension = None, opt_loadExtensions = None, opt_tableName = None,
     opt_directory = None, opt_disableTransactions = None, opt_migrationModules = None \<rparr>"

text \<open>\<^verbatim>\<open>assign(target, source)\<close> for a source that has a subset of the keys.\<close>

definition assign :: "'u config \<Rightarrow> 'u config_opts \<Rightarrow> 'u config" where
  "assign c opts = \<lparr>
     extension = (case opt_extension opts of None \<Rightarrow> extension c | Some v \<Rightarrow> v),
     loadExtensions = (case opt_loadExtensions opts of None \<Rightarrow> loadExtensions c | Some v \<Rightarrow> v),
     tableName = (case opt_tableName opts of None \<Rightarrow> tableName c | Some v \<Rightarrow> v),
     directory = (case opt_directory opts of None \<Rightarrow> directory c | Some v \<Rightarrow> v),
     disableTransactions =
       (case opt_disableTransactions opts of None \<Rightarrow> disableTransactions c | Some v \<Rightarrow> v),
     migrationModules =
       (case opt_migrationModules opts of None \<Rightarrow> migrationModules c | Some v \<Rightarrow> v) \<rparr>"

text \<open>
  \<^verbatim>\<open>setConfig(config) = assign({}, CONFIG_DEFAULT, this.config || {}, config)\<close>.
  \<open>this_config\<close> is \<open>None\<close> in the constructor only; afterwards it has every key of
  \<^verbatim>\<open>CONFIG_DEFAULT\<close>, so it overwrites all of them.
\<close>

definition setConfig :: "'u config option \<Rightarrow> 'u config_opts \<Rightarrow> 'u config" where
  "setConfig this_config opts =
     assign (case this_config of None \<Rightarrow> CONFIG_DEFAULT | Some c \<Rightarrow> c) opts"

section \<open>Connections, statements and what the run leaves behind\<close>

text \<open>
  A statement is issued on the \<^verbatim>\<open>knex\<close> object itself (any pooled connection, no
  transaction) or on a transaction object.
\<close>

datatype conn = Knex | Trx nat

datatype table = MigrationsTable | LockTable

datatype statement =
    HasTable table
  | CreateTable table
  | SelectLock
  | SelectLockForUpdate
  | InsertLock int
  | UpdateLock int
  | SelectNames
  | SelectAll
  | SelectLastBatch
  | SelectMaxBatch
  | InsertRecord string int int
  | DeleteRecord string

datatype event =
    Query conn statement
  | Exec conn string direction
  | Warn string
  | Begin nat
  | Commit nat
  | Rollback nat

record 'u world =
  db :: "'u database"
  trace :: "event list"
  next_trx :: nat
  now :: int
  config :: "'u config"
  activeMigration :: "string option"

text \<open>A promise, run to its end: it fails or yields a value, and changes the world.\<close>

type_synonym ('a, 'u) promise = "'u world \<Rightarrow> (js_error + 'a) \<times> 'u world"

definition resolve :: "'a \<Rightarrow> ('a, 'u) promise" where
  "resolve x s = (Inr x, s)"

definition reject :: "js_error \<Rightarrow> ('a, 'u) promise" where
  "reject e s = (Inl e, s)"

definition then_p :: "('a, 'u) promise \<Rightarrow> ('a \<Rightarrow> ('b, 'u) promise) \<Rightarrow> ('b, 'u) promise" where
  "then_p m f s = (case m s of (Inl e, s') \<Rightarrow> (Inl e, s') | (Inr x, s') \<Rightarrow> f x s')"

definition catch_p :: "('a, 'u) promise \<Rightarrow> (js_error \<Rightarrow> ('a, 'u) promise) \<Rightarrow> ('a, 'u) promise" where
  "catch_p m h s = (case m s of (Inl e, s') \<Rightarrow> h e s' | (Inr x, s') \<Rightarrow> (Inr x, s'))"

definition tap_p :: "('a, 'u) promise \<Rightarrow> ('a \<Rightarrow> ('b, 'u) promise) \<Rightarrow> ('a, 'u) promise" where
  "tap_p m f = then_p m (\<lambda>x. then_p (f x) (\<lambda>_. resolve x))"

definition emit :: "event \<Rightarrow> 'u world \<Rightarrow> 'u world" where
  "emit ev s = s\<lparr>trace := trace s @ [ev]\<rparr>"

text \<open>
  Modelled from the spec: \<^verbatim>\<open>helpers.warn\<close> lives in \<^verbatim>\<open>./helpers\<close>, which is not among the
  sources. It logs a warning that is not fatal: a line in the log.
\<close>

definition warn :: "string \<Rightarrow> (unit, 'u) promise" where
  "warn msg s = (Inr (), emit (Warn msg) s)"

text \<open>
  Modelled from the spec: \<^verbatim>\<open>knex.transaction(fn)\<close> lives in \<^verbatim>\<open>./transaction\<close>, which is
  not among the sources. It begins a transaction, invokes \<open>fn trx\<close>, commits on success
  and rolls back on a thrown error or rejected result. One process works on the store,
  so rolling back restores the contents the store had when the transaction began.
\<close>

definition knex_transaction :: "(nat \<Rightarrow> ('a, 'u) promise) \<Rightarrow> ('a, 'u) promise" where
  "knex_transaction fn s =
     (let t = next_trx s;
          s0 = emit (Begin t) (s\<lparr>next_trx := Suc t\<rparr>)
      in case fn t s0 of
           (Inr v, s1) \<Rightarrow> (Inr v, emit (Commit t) s1)
         | (Inl e, s1) \<Rightarrow> (Inl e, emit (Rollback t) (s1\<lparr>db := db s0\<rparr>)))"

section \<open>The statements the migrator issues\<close>

text \<open>
  Modelled from the spec: the query builder and the database behind it are not among the
  sources. Each function below is one statement the migrator builds, logged with the
  connection it is issued on, and does what that statement does to the two tables of the
  persisted layout. The driver rejects a statement on a table that does not exist.
\<close>

definition no_such_table :: js_error where
  "no_such_table = DriverError ''no such table''"

definition table_exists :: "'u database \<Rightarrow> table \<Rightarrow> bool" where
  "table_exists d t =
     (case t of MigrationsTable \<Rightarrow> migrations_table d \<noteq> None
              | LockTable \<Rightarrow> lock_table d \<noteq> None)"

text \<open>\<^verbatim>\<open>trx.schema.hasTable(table)\<close>\<close>

definition hasTable :: "conn \<Rightarrow> table \<Rightarrow> (bool, 'u) promise" where
  "hasTable c t s = (Inr (table_exists (db s) t), emit (Query c (HasTable t)) s)"

text \<open>\<^verbatim>\<open>_createMigrationTable\<close>: \<^verbatim>\<open>increments\<close> starts the ids at 1.\<close>

definition createMigrationTable :: "conn \<Rightarrow> (unit, 'u) promise" where
  "createMigrationTable c s =
     (let s' = emit (Query c (CreateTable MigrationsTable)) s in
      if table_exists (db s) MigrationsTable
      then (Inl (DriverError ''table already exists''), s')
      else (Inr (), s'\<lparr>db := (db s')\<lparr>migrations_table := Some [], next_id := 1\<rparr>\<rparr>))"

text \<open>\<^verbatim>\<open>_createMigrationLockTable\<close>\<close>

definition createMigrationLockTable :: "conn \<Rightarrow> (unit, 'u) promise" where
  "createMigrationLockTable c s =
     (let s' = emit (Query c (CreateTable LockTable)) s in
      if table_exists (db s) LockTable
      then (Inl (DriverError ''table already exists''), s')
      else (Inr (), s'\<lparr>db := (db s')\<lparr>lock_table := Some []\<rparr>\<rparr>))"

text \<open>\<^verbatim>\<open>trx.from(lockTable).select("*")\<close>, with \<^verbatim>\<open>forUpdate()\<close> when \<open>for_update\<close>.\<close>

definition select_lock :: "conn \<Rightarrow> bool \<Rightarrow> (int list, 'u) promise" where
  "select_lock c for_update s =
     (let s' = emit (Query c (if for_update then SelectLockForUpdate else SelectLock)) s in
      case lock_table (db s) of
        None \<Rightarrow> (Inl no_such_table, s')
      | Some rows \<Rightarrow> (Inr rows, s'))"

text \<open>\<^verbatim>\<open>trx.into(lockTable).insert({ is_locked: v })\<close>\<close>

definition insert_lock :: "conn \<Rightarrow> int \<Rightarrow> (unit, 'u) promise" where
  "insert_lock c v s =
     (let s' = emit (Query c (InsertLock v)) s in
      case lock_table (db s) of
        None \<Rightarrow> (Inl no_such_table, s')
      | Some rows \<Rightarrow> (Inr (), s'\<lparr>db := (db s')\<lparr>lock_table := Some (rows @ [v])\<rparr>\<rparr>))"

text \<open>\<^verbatim>\<open>update({ is_locked: v })\<close> has no \<^verbatim>\<open>where\<close>: it writes every row of the lock table.\<close>

definition update_lock :: "conn \<Rightarrow> int \<Rightarrow> (unit, 'u) promise" where
  "update_lock c v s =
     (let s' = emit (Query c (UpdateLock v)) s in
      case lock_table (db s) of
        None \<Rightarrow> (Inl no_such_table, s')
      | Some rows \<Rightarrow>
          (Inr (), s'\<lparr>db := (db s')\<lparr>lock_table := Some (map (\<lambda>_. v) rows)\<rparr>\<rparr>))"

text \<open>\<^verbatim>\<open>trx.from(tableName).orderBy("id").select("name")\<close>\<close>

definition select_names :: "conn \<Rightarrow> (string list, 'u) promise" where
  "select_names c s =
     (let s' = emit (Query c SelectNames) s in
      case migrations_table (db s) of
        None \<Rightarrow> (Inl no_such_table, s')
      | Some rows \<Rightarrow> (Inr (map name (sort_key rec_id rows)), s'))"

text \<open>\<^verbatim>\<open>this.knex(this.config.tableName).select("*")\<close>\<close>

definition select_all :: "conn \<Rightarrow> (migration_record list, 'u) promise" where
  "select_all c s =
     (let s' = emit (Query c SelectAll) s in
      case migrations_table (db s) of
        None \<Rightarrow> (Inl no_such_table, s')
      | Some rows \<Rightarrow> (Inr rows, s'))"

text \<open>\<^verbatim>\<open>max("batch")\<close> is NULL on a table without rows.\<close>

definition max_batch :: "migration_record list \<Rightarrow> int option" where
  "max_batch rows = (if rows = [] then None else Some (Max (set (map batch rows))))"

text \<open>\<^verbatim>\<open>trx.from(tableName).max("batch as max_batch")\<close>\<close>

definition select_max_batch :: "conn \<Rightarrow> (int option, 'u) promise" where
  "select_max_batch c s =
     (let s' = emit (Query c SelectMaxBatch) s in
      case migrations_table (db s) of
        None \<Rightarrow> (Inl no_such_table, s')
      | Some rows \<Rightarrow> (Inr (max_batch rows), s'))"

text \<open>
  \<^verbatim>\<open>where("batch", qb => qb.max("batch").from(tableName)).orderBy("id", "desc")\<close>:
  no row equals a NULL maximum.
\<close>

definition select_last_batch :: "conn \<Rightarrow> (migration_record list, 'u) promise" where
  "select_last_batch c s =
     (let s' = emit (Query c SelectLastBatch) s in
      case migrations_table (db s) of
        None \<Rightarrow> (Inl no_such_table, s')
      | Some rows \<Rightarrow>
          (Inr (rev (sort_key rec_id
                  (filter (\<lambda>r. max_batch rows = Some (batch r)) rows))), s'))"

text \<open>\<^verbatim>\<open>into(tableName).insert({ name, batch, migration_time })\<close>\<close>

definition insert_record :: "conn \<Rightarrow> string \<Rightarrow> int \<Rightarrow> int \<Rightarrow> (unit, 'u) promise" where
  "insert_record c n b t s =
     (let s' = emit (Query c (InsertRecord n b t)) s in
      case migrations_table (db s) of
        None \<Rightarrow> (Inl no_such_table, s')
      | Some rows \<Rightarrow>
          (Inr (), s'\<lparr>db := (db s')\<lparr>
             migrations_table :=
               Some (rows @ [\<lparr>rec_id = next_id (db s), name = n, batch = b,
                              migration_time = t\<rparr>]),
             next_id := Suc (next_id (db s))\<rparr>\<rparr>))"

text \<open>\<^verbatim>\<open>from(tableName).where({ name }).del()\<close>\<close>

definition delete_record :: "conn \<Rightarrow> string \<Rightarrow> (unit, 'u) promise" where
  "delete_record c n s =
     (let s' = emit (Query c (DeleteRecord n)) s in
      case migrations_table (db s) of
        None \<Rightarrow> (Inl no_such_table, s')
      | Some rows \<Rightarrow>
          (Inr (), s'\<lparr>db := (db s')\<lparr>
             migrations_table := Some (filter (\<lambda>r. name r \<noteq> n) rows)\<rparr>\<rparr>))"

section \<open>The lock\<close>

definition conn_of :: "nat option \<Rightarrow> conn" where
  "conn_of trx = (case trx of None \<Rightarrow> Knex | Some t \<Rightarrow> Trx t)"

text \<open>
  \<^verbatim>\<open>_isLocked(trx)\<close>: \<^verbatim>\<open>data[0].is_locked\<close>; on a lock table without rows \<^verbatim>\<open>data[0]\<close> is
  undefined and reading its property throws a TypeError.
\<close>

definition isLocked :: "nat \<Rightarrow> (int, 'u) promise" where
  "isLocked trx =
     then_p (select_lock (Trx trx) True)
       (\<lambda>data. case data of
            [] \<Rightarrow> reject (TypeError ''Cannot read property 'is_locked' of undefined'')
          | v # _ \<Rightarrow> resolve v)"

text \<open>\<^verbatim>\<open>_lockMigrations(trx)\<close>\<close>

definition lockMigrations :: "nat \<Rightarrow> (unit, 'u) promise" where
  "lockMigrations trx = update_lock (Trx trx) 1"

text \<open>
  \<^verbatim>\<open>_getLock(trx)\<close>: inside the given transaction, or one of its own. The number read is
  tested for truthiness; every failure is rethrown as a \<^verbatim>\<open>LockError\<close> with its message.
\<close>

definition getLock :: "nat option \<Rightarrow> (unit, 'u) promise" where
  "getLock trx =
     (let transact = (case trx of Some t \<Rightarrow> (\<lambda>fn. fn t) | None \<Rightarrow> knex_transaction) in
      catch_p
        (transact (\<lambda>trx.
           then_p
             (then_p (isLocked trx)
                (\<lambda>is_locked. if is_locked \<noteq> 0
                              then reject (Error ''Migration table is already locked'')
                              else resolve ()))
             (\<lambda>_. lockMigrations trx)))
        (\<lambda>err. reject (LockError (message err))))"

text \<open>\<^verbatim>\<open>_freeLock(trx = this.knex)\<close>\<close>

definition freeLock :: "nat option \<Rightarrow> (unit, 'u) promise" where
  "freeLock trx = update_lock (conn_of trx) 0"

section \<open>The migrator\<close>

text \<open>
  The constructor: \<^verbatim>\<open>this.config = this.setConfig(knex.client.config.migrations)\<close> and
  no active migration. \<open>d\<close> is the store the \<^verbatim>\<open>knex\<close> instance is connected to.
\<close>

definition Migrator :: "'u config_opts \<Rightarrow> 'u database \<Rightarrow> 'u world" where
  "Migrator client_migrations d =
     \<lparr> db = d, trace = [], next_trx = 0, now = 0,
       config = setConfig None client_migrations, activeMigration = None \<rparr>"

text \<open>\<^verbatim>\<open>this.config = this.setConfig(config)\<close>\<close>

definition set_config :: "'u config_opts \<Rightarrow> (unit, 'u) promise" where
  "set_config opts s = (Inr (), s\<lparr>config := setConfig (Some (config s)) opts\<rparr>)"

text \<open>Reading \<^verbatim>\<open>this.config\<close>.\<close>

definition with_config :: "('u config \<Rightarrow> ('a, 'u) promise) \<Rightarrow> ('a, 'u) promise" where
  "with_config f s = f (config s) s"

text \<open>
  \<^verbatim>\<open>path.extname\<close> of Node's \<^verbatim>\<open>path\<close> module, as its documentation states it: from the
  last \<^verbatim>\<open>.\<close> of the last portion of the path to the end; empty when that portion has no
  \<^verbatim>\<open>.\<close>, or none but its first character.
\<close>

definition path_basename :: "string \<Rightarrow> string" where
  "path_basename p = rev (takeWhile (\<lambda>c. c \<noteq> CHR ''/'') (rev p))"

definition path_extname :: "string \<Rightarrow> string" where
  "path_extname p =
     (let b = path_basename p;
          e = rev (takeWhile (\<lambda>c. c \<noteq> CHR ''.'') (rev b))
      in if CHR ''.'' \<notin> set b \<or> length b = Suc (length e) then [] else CHR ''.'' # e)"

text \<open>
  \<^verbatim>\<open>Object.keys\<close> of the object an association list stands for (the first binding of a
  key is the property). The order of the keys does not matter: they are sorted next.
\<close>

definition object_keys :: "(string \<times> 'v) list \<Rightarrow> string list" where
  "object_keys obj = remdups (map fst obj)"

text \<open>
  \<^verbatim>\<open>_listAll\<close>: the keys of \<^verbatim>\<open>migrationModules\<close> with a known extension, sorted as
  \<^verbatim>\<open>Array.prototype.sort\<close> sorts strings (by code unit, a prefix first).
\<close>

definition listAll_of :: "'u config \<Rightarrow> string list" where
  "listAll_of cfg =
     sort (filter (\<lambda>value. path_extname value \<in> set (loadExtensions cfg))
             (object_keys (migrationModules cfg)))"

definition listAll :: "(string list, 'u) promise" where
  "listAll = then_p (set_config no_opts) (\<lambda>_. with_config (\<lambda>cfg. resolve (listAll_of cfg)))"

text \<open>\<^verbatim>\<open>_ensureTable(trx = this.knex)\<close>\<close>

definition ensureTable :: "conn \<Rightarrow> (unit, 'u) promise" where
  "ensureTable trx =
     then_p (hasTable trx MigrationsTable) (\<lambda>exists.
     then_p (if \<not> exists then createMigrationTable trx else resolve ()) (\<lambda>_.
     then_p (hasTable trx LockTable) (\<lambda>exists.
     then_p (if \<not> exists then createMigrationLockTable trx else resolve ()) (\<lambda>_.
     then_p (select_lock trx False) (\<lambda>data.
     if data = [] then insert_lock trx 0 else resolve ())))))"

text \<open>\<^verbatim>\<open>_listCompleted(trx = this.knex)\<close>\<close>

definition listCompleted :: "conn \<Rightarrow> (string list, 'u) promise" where
  "listCompleted trx = then_p (ensureTable trx) (\<lambda>_. select_names trx)"

text \<open>\<^verbatim>\<open>_migrationData()\<close>\<close>

definition migrationData :: "(string list \<times> string list, 'u) promise" where
  "migrationData =
     then_p listAll (\<lambda>all. then_p (listCompleted Knex) (\<lambda>completed. resolve (all, completed)))"

text \<open>lodash's \<^verbatim>\<open>difference\<close> and \<^verbatim>\<open>Array.prototype.join\<close>.\<close>

definition difference :: "'a list \<Rightarrow> 'a list \<Rightarrow> 'a list" where
  "difference xs ys = filter (\<lambda>x. x \<notin> set ys) xs"

fun join :: "string \<Rightarrow> string list \<Rightarrow> string" where
  "join sep [] = []"
| "join sep [x] = x"
| "join sep (x # y # ys) = x @ sep @ join sep (y # ys)"

text \<open>\<^verbatim>\<open>validateMigrationList(migrations)\<close>\<close>

definition validateMigrationList :: "string list \<times> string list \<Rightarrow> (unit, 'u) promise" where
  "validateMigrationList migrations =
     (let all = fst migrations;
          completed = snd migrations;
          diff = difference completed all
      in if diff \<noteq> []
         then reject (Error
           (''The migration directory is corrupt, the following files are missing: ''
             @ join '', '' diff))
         else resolve ())"

text \<open>
  \<^verbatim>\<open>_validateMigrationStructure(name)\<close>; a name that is no key of \<^verbatim>\<open>migrationModules\<close>
  makes \<^verbatim>\<open>migration.up\<close> a property read of undefined.
\<close>

definition validateMigrationStructure :: "'u config \<Rightarrow> string \<Rightarrow> js_error + string" where
  "validateMigrationStructure cfg nm =
     (case map_of (migrationModules cfg) nm of
        None \<Rightarrow> Inl (TypeError ''Cannot read property 'up' of undefined'')
      | Some migration \<Rightarrow>
          if up migration = None \<or> down migration = None
          then Inl (Error (''Invalid migration: '' @ nm
                 @ '' must have both an up and down function''))
          else Inr nm)"

text \<open>\<^verbatim>\<open>map(migrations, bind(this._validateMigrationStructure, this))\<close>: the first throw ends it.\<close>

fun validate_each :: "'u config \<Rightarrow> string list \<Rightarrow> js_error + string list" where
  "validate_each cfg [] = Inr []"
| "validate_each cfg (n # ns) =
     (case validateMigrationStructure cfg n of
        Inl e \<Rightarrow> Inl e
      | Inr v \<Rightarrow> (case validate_each cfg ns of Inl e \<Rightarrow> Inl e | Inr vs \<Rightarrow> Inr (v # vs)))"

definition validate_all :: "string list \<Rightarrow> (string list, 'u) promise" where
  "validate_all migrations =
     with_config (\<lambda>cfg. case validate_each cfg migrations of
                          Inl e \<Rightarrow> reject e | Inr vs \<Rightarrow> resolve vs)"

text \<open>\<^verbatim>\<open>_latestBatchNumber(trx = this.knex)\<close>: \<^verbatim>\<open>obj[0].max_batch || 0\<close>\<close>

definition latestBatchNumber :: "nat option \<Rightarrow> (int, 'u) promise" where
  "latestBatchNumber trx =
     then_p (select_max_batch (conn_of trx))
       (\<lambda>max_b. resolve (case max_b of None \<Rightarrow> 0 | Some b \<Rightarrow> if b = 0 then 0 else b))"

text \<open>
  \<^verbatim>\<open>_useTransaction(migration, allTransactionsDisabled)\<close>; either argument may be
  undefined (\<open>None\<close>), and \<^verbatim>\<open>!undefined\<close> is true.
\<close>

definition useTransaction :: "'u migration option \<Rightarrow> bool option \<Rightarrow> bool" where
  "useTransaction migration allTransactionsDisabled =
     (let singleTransactionValue =
            (case migration of None \<Rightarrow> None | Some m \<Rightarrow> transaction_cfg m)
      in case singleTransactionValue of
           Some b \<Rightarrow> b
         | None \<Rightarrow> (case allTransactionsDisabled of None \<Rightarrow> True | Some b \<Rightarrow> \<not> b))"

text \<open>
  \<^verbatim>\<open>migration[direction](trxOrKnex, Promise)\<close>: the call is logged with the connection it
  is given; what the operation does to the store stays when it fails (a transaction
  around it undoes it).
\<close>

definition invoke :: "'u migration option \<Rightarrow> direction \<Rightarrow> conn \<Rightarrow> string \<Rightarrow> (bool, 'u) promise" where
  "invoke migration direction c nm s =
     (case migration of
        None \<Rightarrow> (Inl (TypeError ''Cannot read property of undefined''), s)
      | Some m \<Rightarrow>
          (case (case direction of Up \<Rightarrow> up m | Down \<Rightarrow> down m) of
             None \<Rightarrow> (Inl (TypeError ''migration[direction] is not a function''), s)
           | Some f \<Rightarrow>
               (case f (db s) of
                  (r, d') \<Rightarrow> (r, (emit (Exec c nm direction) s)\<lparr>db := d'\<rparr>))))"

text \<open>
  \<^verbatim>\<open>warnPromise(value, name, fn)\<close>: a warning when the value is not a promise. \<open>fn\<close>, where
  given, commits the transaction, which \<open>knex_transaction\<close> does on success.
\<close>

definition warnPromise :: "(bool, 'u) promise \<Rightarrow> string \<Rightarrow> (unit, 'u) promise" where
  "warnPromise value nm =
     then_p value (\<lambda>is_promise.
       if \<not> is_promise then warn (''migration '' @ nm @ '' did not return a promise'')
       else resolve ())"

text \<open>\<^verbatim>\<open>_transaction(migration, direction, name)\<close>\<close>

definition transaction_m :: "'u migration option \<Rightarrow> direction \<Rightarrow> string \<Rightarrow> (unit, 'u) promise" where
  "transaction_m migration direction nm =
     knex_transaction (\<lambda>trx. warnPromise (invoke migration direction (Trx trx) nm) nm)"

text \<open>The two callbacks \<^verbatim>\<open>_waterfallBatch\<close> chains for each migration.\<close>

definition run_migration :: "'u config \<Rightarrow> direction \<Rightarrow> nat option \<Rightarrow> string \<Rightarrow> (unit, 'u) promise" where
  "run_migration cfg direction trx nm =
     (let migration = map_of (migrationModules cfg) nm in
      if trx = None \<and> useTransaction migration (Some (disableTransactions cfg))
      then transaction_m migration direction nm
      else warnPromise (invoke migration direction (conn_of trx) nm) nm)"

definition persist_record :: "int \<Rightarrow> direction \<Rightarrow> nat option \<Rightarrow> string \<Rightarrow> (unit, 'u) promise" where
  "persist_record batchNo direction trx nm s =
     (case direction of
        Up \<Rightarrow> insert_record (conn_of trx) nm batchNo (now s) s
      | Down \<Rightarrow> delete_record (conn_of trx) nm s)"

fun waterfall ::
  "'u config \<Rightarrow> int \<Rightarrow> direction \<Rightarrow> nat option \<Rightarrow> string list \<Rightarrow> string list
     \<Rightarrow> (string list, 'u) promise" where
  "waterfall cfg batchNo direction trx log [] = resolve log"
| "waterfall cfg batchNo direction trx log (nm # rest) =
     then_p (run_migration cfg direction trx nm) (\<lambda>_.
     then_p (persist_record batchNo direction trx nm) (\<lambda>_.
     waterfall cfg batchNo direction trx (log @ [nm]) rest))"

text \<open>
  \<^verbatim>\<open>_waterfallBatch(batchNo, migrations, direction, trx)\<close>. \<^verbatim>\<open>each\<close> builds the whole chain
  before any of it runs, so \<^verbatim>\<open>_activeMigration.fileName\<close> is the last name by then.
\<close>

definition waterfallBatch ::
  "int \<Rightarrow> string list \<Rightarrow> direction \<Rightarrow> nat option \<Rightarrow> (int \<times> string list, 'u) promise" where
  "waterfallBatch batchNo migrations direction trx s =
     then_p (waterfall (config s) batchNo direction trx [] migrations)
       (\<lambda>log. resolve (batchNo, log))
       (s\<lparr>activeMigration :=
            (if migrations = [] then activeMigration s else Some (last migrations))\<rparr>)"

text \<open>\<^verbatim>\<open>cleanupReady.finally(function () { throw error; })\<close>\<close>

definition finally_throw :: "('a, 'u) promise \<Rightarrow> js_error \<Rightarrow> ('b, 'u) promise" where
  "finally_throw cleanupReady error s = (Inl error, snd (cleanupReady s))"

definition getLockTableName :: "'u config \<Rightarrow> string" where
  "getLockTableName cfg = tableName cfg @ ''_lock''"

text \<open>\<^verbatim>\<open>_runBatch\<close>, the chain up to and with \<^verbatim>\<open>.tap(() => this._freeLock(trx))\<close>.\<close>

definition runBatch_try ::
  "string list \<Rightarrow> direction \<Rightarrow> nat option \<Rightarrow> (int \<times> string list, 'u) promise" where
  "runBatch_try migrations direction trx =
     tap_p
       (then_p (getLock trx) (\<lambda>_.
        then_p (case trx of Some t \<Rightarrow> listCompleted (Trx t) | None \<Rightarrow> resolve []) (\<lambda>completed.
        let migrations = difference migrations completed in
        then_p (validate_all migrations) (\<lambda>_.
        then_p (latestBatchNumber trx) (\<lambda>batchNo.
        let batchNo = (if direction = Up then batchNo + 1 else batchNo) in
        waterfallBatch batchNo migrations direction trx)))))
       (\<lambda>_. freeLock trx)"

text \<open>Reading \<^verbatim>\<open>this._activeMigration.fileName\<close>.\<close>

definition with_activeMigration :: "(string option \<Rightarrow> ('a, 'u) promise) \<Rightarrow> ('a, 'u) promise" where
  "with_activeMigration f s = f (activeMigration s) s"

text \<open>\<^verbatim>\<open>_runBatch\<close>, the \<^verbatim>\<open>.catch\<close> callback.\<close>

definition runBatch_catch :: "nat option \<Rightarrow> js_error \<Rightarrow> ('a, 'u) promise" where
  "runBatch_catch trx error =
     (if instanceof_LockError error
      then
        then_p (warn (''Can't take lock to run migrations: '' @ message error)) (\<lambda>_.
        then_p (with_config (\<lambda>cfg. warn
          (''If you are sure migrations are not running you can release the ''
            @ ''lock manually by deleting all the rows from migrations lock ''
            @ ''table: '' @ getLockTableName cfg))) (\<lambda>_.
        finally_throw (resolve ()) error))
      else
        then_p (with_activeMigration (\<lambda>fileName.
                  case fileName of
                    None \<Rightarrow> resolve ()
                  | Some f \<Rightarrow>
                      if f \<noteq> []
                      then warn (''migration file '' @ [CHR 0x22] @ f @ [CHR 0x22] @ '' failed'')
                      else resolve ())) (\<lambda>_.
        then_p (warn (''migration failed with error: '' @ message error)) (\<lambda>_.
        finally_throw (freeLock trx) error)))"

text \<open>\<^verbatim>\<open>_runBatch(migrations, direction, trx)\<close>\<close>

definition runBatch ::
  "string list \<Rightarrow> direction \<Rightarrow> nat option \<Rightarrow> (int \<times> string list, 'u) promise" where
  "runBatch migrations direction trx =
     catch_p (runBatch_try migrations direction trx) (runBatch_catch trx)"

text \<open>The test of \<^verbatim>\<open>latest\<close> for one transaction around the whole batch.\<close>

definition transactionForAll :: "'u config \<Rightarrow> string list \<Rightarrow> bool" where
  "transactionForAll cfg migrations =
     (\<not> disableTransactions cfg \<and>
      filter (\<lambda>nm. \<not> useTransaction (map_of (migrationModules cfg) nm) None) migrations = [])"

text \<open>\<^verbatim>\<open>latest(config)\<close>\<close>

definition latest :: "'u config_opts \<Rightarrow> (int \<times> string list, 'u) promise" where
  "latest opts =
     then_p (set_config opts) (\<lambda>_.
     then_p (tap_p migrationData validateMigrationList) (\<lambda>(all, completed).
       let migrations = difference all completed in
       with_config (\<lambda>cfg.
         if transactionForAll cfg migrations
         then knex_transaction (\<lambda>trx. runBatch migrations Up (Some trx))
         else runBatch migrations Up None)))"

text \<open>\<^verbatim>\<open>_getLastBatch()\<close>\<close>

definition getLastBatch :: "(migration_record list, 'u) promise" where
  "getLastBatch = select_last_batch Knex"

text \<open>\<^verbatim>\<open>rollback(config)\<close>\<close>

definition rollback :: "'u config_opts \<Rightarrow> (int \<times> string list, 'u) promise" where
  "rollback opts =
     then_p (set_config opts) (\<lambda>_.
     then_p (tap_p migrationData validateMigrationList) (\<lambda>val.
     then_p getLastBatch (\<lambda>migrations.
     runBatch (map name migrations) Down None)))"

text \<open>\<^verbatim>\<open>status(config)\<close>\<close>

definition status :: "'u config_opts \<Rightarrow> (int, 'u) promise" where
  "status opts =
     then_p (set_config opts) (\<lambda>_.
     then_p (select_all Knex) (\<lambda>db_rows.
     then_p listAll (\<lambda>code.
     resolve (int (length db_rows) - int (length code)))))"

text \<open>
  lodash's \<^verbatim>\<open>max\<close> on strings (\<^verbatim>\<open>baseExtremum\<close> with \<^verbatim>\<open>>\<close>): undefined on an empty array.
\<close>

fun baseExtremum :: "string list \<Rightarrow> string option \<Rightarrow> string option" where
  "baseExtremum [] computed = computed"
| "baseExtremum (current # rest) computed =
     baseExtremum rest
       (case computed of
          None \<Rightarrow> Some current
        | Some c \<Rightarrow> if current > c then Some current else Some c)"

definition lodash_max :: "string list \<Rightarrow> string option" where
  "lodash_max array = (if array = [] then None else baseExtremum array None)"

text \<open>\<^verbatim>\<open>value.split("_")[0]\<close>\<close>

definition split_first :: "string \<Rightarrow> string" where
  "split_first v = takeWhile (\<lambda>c. c \<noteq> CHR ''_'') v"

text \<open>\<^verbatim>\<open>currentVersion(config)\<close>\<close>

definition currentVersion :: "'u config_opts \<Rightarrow> (string, 'u) promise" where
  "currentVersion opts =
     then_p (set_config opts) (\<lambda>_.
     then_p (listCompleted Knex) (\<lambda>completed.
       let val = lodash_max (map split_first completed) in
       resolve (case val of None \<Rightarrow> ''none'' | Some v \<Rightarrow> v)))"

section \<open>Observations\<close>

text \<open>The events a run added to the log.\<close>

definition new_events :: "'u world \<Rightarrow> 'u world \<Rightarrow> event list" where
  "new_events s s' = drop (length (trace s)) (trace s')"

fun is_lock_write :: "event \<Rightarrow> bool" where
  "is_lock_write (Query c (UpdateLock v)) = True"
| "is_lock_write (Query c (InsertLock v)) = True"
| "is_lock_write ev = False"


text \<open>The rows of the migrations table (none while the table does not exist), and
  their names in the order of \<^verbatim>\<open>_listCompleted\<close>.\<close>

definition applied_rows :: "'u database \<Rightarrow> migration_record list" where
  "applied_rows d = (case migrations_table d of None \<Rightarrow> [] | Some rows \<Rightarrow> rows)"

definition applied_names :: "'u database \<Rightarrow> string list" where
  "applied_names d = map name (sort_key rec_id (applied_rows d))"

text \<open>
  What a promise adds to the log when it runs under the configuration \<open>cfg\<close>: it keeps
  the configuration, and every event it appends satisfies \<open>P\<close>.
\<close>

definition adds :: "'u config \<Rightarrow> (event \<Rightarrow> bool) \<Rightarrow> ('a, 'u) promise \<Rightarrow> bool" where
  "adds cfg P m \<longleftrightarrow>
     (\<forall>s. config s = cfg \<longrightarrow>
          config (snd (m s)) = cfg
          \<and> (\<exists>evs. trace (snd (m s)) = trace s @ evs \<and> list_all P evs))"

text \<open>Events other than running a migration and writing a migration record.\<close>

fun bookkeeping :: "event \<Rightarrow> bool" where
  "bookkeeping (Exec c n d) = False"
| "bookkeeping (Query c (InsertRecord n b t)) = False"
| "bookkeeping (Query c (DeleteRecord n)) = False"
| "bookkeeping ev = True"

definition benign :: "(event \<Rightarrow> bool) \<Rightarrow> bool" where
  "benign P \<longleftrightarrow> (\<forall>ev. bookkeeping ev \<longrightarrow> P ev)"

text \<open>
  What a batch may add to the log under \<open>cfg\<close> and the outer transaction \<open>trx\<close>: a
  migration runs on a transaction of its own when there is no outer transaction and
  \<^verbatim>\<open>_useTransaction\<close> says so, and on the batch's connection otherwise; a migration record is
  written on the batch's connection.
\<close>

fun batch_event_ok :: "'u config \<Rightarrow> nat option \<Rightarrow> event \<Rightarrow> bool" where
  "batch_event_ok cfg trx (Exec c n d) =
     (if trx = None
         \<and> useTransaction (map_of (migrationModules cfg) n) (Some (disableTransactions cfg))
      then c \<noteq> Knex else c = conn_of trx)"
| "batch_event_ok cfg trx (Query c (InsertRecord n b t)) = (c = conn_of trx)"
| "batch_event_ok cfg trx (Query c (DeleteRecord n)) = (c = conn_of trx)"
| "batch_event_ok cfg trx ev = True"



text \<open>The message of \<^verbatim>\<open>validateMigrationList\<close> for the missing names \<open>diff\<close>.\<close>

definition corrupt_message :: "string list \<Rightarrow> string" where
  "corrupt_message diff =
     ''The migration directory is corrupt, the following files are missing: ''
       @ join '', '' diff"

text \<open>The migrations that ran, in the order of the log.\<close>

fun exec_names :: "event list \<Rightarrow> string list" where
  "exec_names [] = []"
| "exec_names (Exec c n d # evs) = n # exec_names evs"
| "exec_names (ev # evs) = exec_names evs"

text \<open>
  A migration operation that leaves the migrations table alone, a configuration all of
  whose operations do, and the batch number \<^verbatim>\<open>_runBatch\<close> gives to an "up" batch on the
  rows \<open>rows\<close>.
\<close>

definition keeps_records :: "'u operation \<Rightarrow> bool" where
  "keeps_records f \<longleftrightarrow> (\<forall>d. migrations_table (snd (f d)) = migrations_table d)"

definition modules_keep_records :: "'u config \<Rightarrow> bool" where
  "modules_keep_records cfg \<longleftrightarrow>
     (\<forall>nm m f. map_of (migrationModules cfg) nm = Some m
               \<and> (up m = Some f \<or> down m = Some f) \<longrightarrow> keeps_records f)"

definition next_batch :: "migration_record list \<Rightarrow> int" where
  "next_batch rows = (case max_batch rows of None \<Rightarrow> 0 | Some b \<Rightarrow> b) + 1"

text \<open>Only migrations of \<open>T\<close> run; and \<open>adds\<close> for the run from one world.\<close>

fun runs_only :: "string set \<Rightarrow> event \<Rightarrow> bool" where
  "runs_only T (Exec c n d) = (n \<in> T)"
| "runs_only T ev = True"

definition adds_at :: "'u config \<Rightarrow> (event \<Rightarrow> bool) \<Rightarrow> ('a, 'u) promise \<Rightarrow> 'u world \<Rightarrow> bool" where
  "adds_at cfg P m s \<longleftrightarrow>
     config (snd (m s)) = cfg
     \<and> (\<exists>evs. trace (snd (m s)) = trace s @ evs \<and> list_all P evs)"

section \<open>A small installation\<close>

text \<open>
  Migrations over a store whose user data is one counter: \<open>ex_up\<close> and \<open>ex_down\<close>
  return promises, \<open>ex_drop_lock\<close> drops the lock table and fails.
\<close>

definition ex_up :: "nat operation" where
  "ex_up d = (Inr True, d\<lparr>user_data := Suc (user_data d)\<rparr>)"

definition ex_down :: "nat operation" where
  "ex_down d = (Inr True, d\<lparr>user_data := user_data d - 1\<rparr>)"

definition ex_drop_lock :: "nat operation" where
  "ex_drop_lock d = (Inl (Error ''boom''), d\<lparr>lock_table := None\<rparr>)"

definition ex_migration :: "nat migration" where
  "ex_migration = \<lparr>up = Some ex_up, down = Some ex_down, transaction_cfg = None\<rparr>"

definition ex_store :: "migration_record list \<Rightarrow> int list \<Rightarrow> nat database" where
  "ex_store rows lock =
     \<lparr>migrations_table = Some rows, next_id = Suc (length rows), lock_table = Some lock,
      user_data = 0\<rparr>"

definition ex_record :: "nat \<Rightarrow> string \<Rightarrow> int \<Rightarrow> migration_record" where
  "ex_record i nm b = \<lparr>rec_id = i, name = nm, batch = b, migration_time = 0\<rparr>"

definition ex_world :: "(string \<times> nat migration) list \<Rightarrow> nat database \<Rightarrow> nat world" where
  "ex_world modules d = Migrator (no_opts\<lparr>opt_migrationModules := Some modules\<rparr>) d"

text \<open>One applied migration: with a second one defined, and with nothing pending.\<close>

definition ex_two :: "nat world" where
  "ex_two = ex_world [(''a.js'', ex_migration), (''b.js'', ex_migration)]
              (ex_store [ex_record 1 ''a.js'' 1] [0])"

definition ex_one :: "nat world" where
  "ex_one = ex_world [(''a.js'', ex_migration)] (ex_store [ex_record 1 ''a.js'' 1] [0])"

section \<open>The client's query\<close>

text \<open>
  \<^verbatim>\<open>Client.query\<close> of \<^verbatim>\<open>src/client.js\<close>. Error objects live in a heap, so that an error is
  known by its address and its \<^verbatim>\<open>message\<close> can be assigned to. The log holds what the
  client emits: \<^verbatim>\<open>"query"\<close> with the statement, and \<^verbatim>\<open>"query-error"\<close> with the error and the
  statement, each with the connection's \<^verbatim>\<open>__knexUid\<close> and \<^verbatim>\<open>__knexTxId\<close>.
\<close>

record 'b query_obj =
  sql :: "string option"
  bindings :: "'b list option"

datatype 'b query_arg = SqlString string | QueryObj "'b query_obj"

record connection =
  knexUid :: "string option"
  knexTxId :: "string option"

record error_obj =
  error_name :: string
  error_message :: string

datatype 'b client_event =
    QueryEvent "string option" "string option" "'b query_obj"
  | QueryErrorEvent nat "string option" "string option" "'b query_obj"

record 'b client_state =
  heap :: "nat \<Rightarrow> error_obj"
  emitted :: "'b client_event list"

text \<open>
  What a dialect supplies: \<^verbatim>\<open>positionBindings\<close> and \<^verbatim>\<open>prepBindings\<close> (identities in the base
  client), \<^verbatim>\<open>_escapeBinding\<close> (built by \<^verbatim>\<open>makeEscape\<close> of \<^verbatim>\<open>./query/string\<close>, which is not
  among the sources) and \<^verbatim>\<open>_query\<close>, the driver call: it yields a response or rejects
  with an error object.
\<close>

record ('b, 'r) client =
  positionBindings :: "string option \<Rightarrow> string option"
  prepBindings :: "'b list option \<Rightarrow> 'b list option"
  escapeBinding :: "'b \<Rightarrow> string"
  query_impl :: "connection \<Rightarrow> 'b query_obj \<Rightarrow> 'b client_state \<Rightarrow> (nat + 'r) \<times> 'b client_state"

text \<open>
  \<^verbatim>\<open>sql.replace(/\\?\?/g, ...)\<close> of \<^verbatim>\<open>_formatQuery\<close>: an escaped question mark loses its
  backslash, any other question mark becomes the next binding, escaped, while there is one.
\<close>

fun format_loop :: "('b \<Rightarrow> string) \<Rightarrow> 'b list \<Rightarrow> nat \<Rightarrow> string \<Rightarrow> string" where
  "format_loop esc bs index [] = []"
| "format_loop esc bs index [c] =
     (if c = CHR ''?''
      then (if index = length bs then [c] else esc (bs ! index))
      else [c])"
| "format_loop esc bs index (c # c' # cs) =
     (if c = CHR 0x5C \<and> c' = CHR ''?'' then CHR ''?'' # format_loop esc bs index cs
      else if c = CHR ''?''
      then (if index = length bs then c # format_loop esc bs index (c' # cs)
            else esc (bs ! index) @ format_loop esc bs (Suc index) (c' # cs))
      else c # format_loop esc bs index (c' # cs))"

text \<open>\<^verbatim>\<open>_formatQuery(sql, bindings)\<close>: undefined when \<open>sql\<close> is.\<close>

definition formatQuery :: "('b \<Rightarrow> string) \<Rightarrow> string option \<Rightarrow> 'b list option \<Rightarrow> string option" where
  "formatQuery esc sql_text bs =
     (let bs = (case bs of None \<Rightarrow> [] | Some l \<Rightarrow> [] @ l) in
      map_option (format_loop esc bs 0) sql_text)"

text \<open>String concatenation turns undefined into the text "undefined".\<close>

definition js_string :: "string option \<Rightarrow> string" where
  "js_string v = (case v of None \<Rightarrow> ''undefined'' | Some str \<Rightarrow> str)"

definition client_emit :: "'b client_event \<Rightarrow> 'b client_state \<Rightarrow> 'b client_state" where
  "client_emit ev s = s\<lparr>emitted := emitted s @ [ev]\<rparr>"

text \<open>The first three statements of \<^verbatim>\<open>query\<close>: the statement that is sent.\<close>

definition prepare :: "('b, 'r) client \<Rightarrow> 'b query_arg \<Rightarrow> 'b query_obj" where
  "prepare cl arg =
     (let obj = (case arg of SqlString str \<Rightarrow> \<lparr>sql = Some str, bindings = None\<rparr>
                           | QueryObj obj \<Rightarrow> obj)
      in obj\<lparr>sql := positionBindings cl (sql obj),
             bindings := prepBindings cl (bindings obj)\<rparr>)"

text \<open>\<^verbatim>\<open>query(connection, obj)\<close>\<close>

definition query ::
  "('b, 'r) client \<Rightarrow> connection \<Rightarrow> 'b query_arg \<Rightarrow> 'b client_state
     \<Rightarrow> (nat + 'r) \<times> 'b client_state" where
  "query cl connection arg s =
     (let obj = prepare cl arg;
          s1 = client_emit (QueryEvent (knexUid connection) (knexTxId connection) obj) s
      in case query_impl cl connection obj s1 of
           (Inr resp, s2) \<Rightarrow> (Inr resp, s2)
         | (Inl err, s2) \<Rightarrow>
             (let msg = js_string (formatQuery (escapeBinding cl) (sql obj) (bindings obj))
                          @ '' - '' @ error_message (heap s2 err);
                  s3 = s2\<lparr>heap := (heap s2)(err := (heap s2 err)\<lparr>error_message := msg\<rparr>)\<rparr>;
                  s4 = client_emit
                         (QueryErrorEvent err (knexUid connection) (knexTxId connection) obj) s3
              in (Inl err, s4)))"

text \<open>A client whose driver rejects every statement with the error object at address 0.\<close>

definition ex_client :: "(nat, unit) client" where
  "ex_client = \<lparr> positionBindings = (\<lambda>x. x), prepBindings = (\<lambda>x. x),
     escapeBinding = (\<lambda>n. if n = 0 then ''0'' else ''n''),
     query_impl = (\<lambda>c obj s. (Inl 0, s)) \<rparr>"

definition ex_client_state :: "nat client_state" where
  "ex_client_state =
     \<lparr> heap = (\<lambda>a. \<lparr>error_name = ''Error'', error_message = ''boom''\<rparr>), emitted = [] \<rparr>"

definition ex_connection :: connection where
  "ex_connection = \<lparr> knexUid = Some ''__knexUid1'', knexTxId = None \<rparr>"

section \<open>Unfolding the definitions on a concrete installation\<close>

lemmas run_defs =
  runBatch_def runBatch_try_def runBatch_catch_def catch_p_def then_p_def tap_p_def
  resolve_def reject_def warn_def emit_def with_config_def with_activeMigration_def
  finally_throw_def getLock_def isLocked_def lockMigrations_def freeLock_def knex_transaction_def
  select_lock_def update_lock_def insert_lock_def select_names_def select_all_def
  select_max_batch_def select_last_batch_def insert_record_def delete_record_def
  hasTable_def createMigrationTable_def createMigrationLockTable_def table_exists_def
  ensureTable_def listCompleted_def listAll_def listAll_of_def migrationData_def
  validateMigrationList_def validate_all_def validateMigrationStructure_def
  latestBatchNumber_def max_batch_def useTransaction_def invoke_def warnPromise_def
  transaction_m_def run_migration_def persist_record_def waterfallBatch_def
  getLockTableName_def conn_of_def difference_def object_keys_def path_extname_def
  path_basename_def set_config_def setConfig_def assign_def CONFIG_DEFAULT_def no_opts_def
  Migrator_def new_events_def transactionForAll_def latest_def rollback_def
  getLastBatch_def status_def currentVersion_def lodash_max_def split_first_def Let_def

lemmas ex_defs =
  ex_up_def ex_down_def ex_drop_lock_def ex_migration_def ex_store_def ex_record_def
  ex_world_def

section \<open>Acquiring the lock\<close>

lemma getLock_held:
  assumes "lock_table (db s) = Some (v # vs)" and "v \<noteq> 0"
  shows "fst (getLock trx s) = Inl (LockError ''Migration table is already locked'')"
    and "db (snd (getLock trx s)) = db s"
    and "filter is_lock_write (new_events s (snd (getLock trx s))) = []"
  using assms
  by (cases trx; simp add: getLock_def knex_transaction_def catch_p_def then_p_def
      isLocked_def select_lock_def reject_def resolve_def emit_def new_events_def Let_def)+





section \<open>Lock cleanup of a batch\<close>

lemma then_p_Inr:
  "then_p m f s = (Inr y, s') \<longleftrightarrow> (\<exists>x s1. m s = (Inr x, s1) \<and> f x s1 = (Inr y, s'))"
  by (auto simp: then_p_def split: prod.splits sum.splits)

lemma then_p_Inl:
  "then_p m f s = (Inl e, s') \<longleftrightarrow>
     (m s = (Inl e, s') \<or> (\<exists>x s1. m s = (Inr x, s1) \<and> f x s1 = (Inl e, s')))"
  by (auto simp: then_p_def split: prod.splits sum.splits)

lemma then_p_fails: "m s = (Inl e, s1) \<Longrightarrow> then_p m f s = (Inl e, s1)"
  by (simp add: then_p_def)

lemma tap_p_Inr:
  "tap_p m f s = (Inr x, s') \<longleftrightarrow> (\<exists>s1 y. m s = (Inr x, s1) \<and> f x s1 = (Inr y, s'))"
  by (auto simp: tap_p_def then_p_Inr resolve_def)

lemma new_events_append: "trace s' = trace s @ evs \<Longrightarrow> new_events s s' = evs"
  by (simp add: new_events_def)

lemma getLock_held_trace:
  assumes "lock_table (db s) = Some (v # vs)" and "v \<noteq> 0"
  shows "\<exists>evs. trace (snd (getLock trx s)) = trace s @ evs \<and> filter is_lock_write evs = []"
  using assms
  by (cases trx; simp add: getLock_def knex_transaction_def catch_p_def then_p_def
      isLocked_def select_lock_def reject_def resolve_def emit_def Let_def)

lemma runBatch_catch_lock:
  assumes "instanceof_LockError e"
  shows "fst (runBatch_catch trx e s1) = Inl e"
    and "db (snd (runBatch_catch trx e s1)) = db s1"
    and "\<exists>ws. trace (snd (runBatch_catch trx e s1)) = trace s1 @ map Warn ws"
proof -
  show "fst (runBatch_catch trx e s1) = Inl e" "db (snd (runBatch_catch trx e s1)) = db s1"
    using assms
    by (simp_all add: runBatch_catch_def then_p_def warn_def with_config_def finally_throw_def
      resolve_def emit_def)
  have "trace (snd (runBatch_catch trx e s1)) = trace s1 @ map Warn
     [''Can't take lock to run migrations: '' @ message e,
      ''If you are sure migrations are not running you can release the ''
            @ ''lock manually by deleting all the rows from migrations lock ''
            @ ''table: '' @ getLockTableName (config s1)]"
    using assms
    by (simp add: runBatch_catch_def then_p_def warn_def with_config_def finally_throw_def
      resolve_def emit_def)
  then show "\<exists>ws. trace (snd (runBatch_catch trx e s1)) = trace s1 @ map Warn ws"
    by blast
qed

lemma no_lock_write_warns: "filter is_lock_write (map Warn ws) = []"
  by (induction ws) simp_all

lemma runBatch_catch_other:
  assumes "\<not> instanceof_LockError e"
  shows "fst (runBatch_catch trx e s1) = Inl e"
    and "\<exists>ws. new_events s1 (snd (runBatch_catch trx e s1))
            = map Warn ws @ [Query (conn_of trx) (UpdateLock 0)]"
    and "lock_table (db (snd (runBatch_catch trx e s1)))
            = map_option (map (\<lambda>_. 0)) (lock_table (db s1))"
proof -
  show "fst (runBatch_catch trx e s1) = Inl e"
    using assms by (simp add: runBatch_catch_def then_p_def warn_def finally_throw_def
        resolve_def with_activeMigration_def split: option.splits)
  show "\<exists>ws. new_events s1 (snd (runBatch_catch trx e s1))
            = map Warn ws @ [Query (conn_of trx) (UpdateLock 0)]"
  proof (cases "\<exists>f. activeMigration s1 = Some f \<and> f \<noteq> []")
    case True
    then obtain f where "activeMigration s1 = Some f" "f \<noteq> []" by blast
    then have "new_events s1 (snd (runBatch_catch trx e s1))
       = map Warn [''migration file '' @ [CHR 0x22] @ f @ [CHR 0x22] @ '' failed'',
                   ''migration failed with error: '' @ message e]
          @ [Query (conn_of trx) (UpdateLock 0)]"
      using assms by (simp add: runBatch_catch_def then_p_def warn_def finally_throw_def
        resolve_def emit_def new_events_def freeLock_def update_lock_def Let_def
        with_activeMigration_def split: option.splits)
    then show ?thesis by blast
  next
    case False
    then have "new_events s1 (snd (runBatch_catch trx e s1))
       = map Warn [''migration failed with error: '' @ message e]
          @ [Query (conn_of trx) (UpdateLock 0)]"
      using assms by (cases "activeMigration s1")
        (simp_all add: runBatch_catch_def then_p_def warn_def finally_throw_def
        resolve_def emit_def new_events_def freeLock_def update_lock_def Let_def
        with_activeMigration_def split: option.splits)
    then show ?thesis by blast
  qed
  show "lock_table (db (snd (runBatch_catch trx e s1)))
            = map_option (map (\<lambda>_. 0)) (lock_table (db s1))"
    using assms by (simp add: runBatch_catch_def then_p_def warn_def finally_throw_def
        resolve_def emit_def freeLock_def update_lock_def Let_def with_activeMigration_def
        split: option.splits)
qed

lemma runBatch_catch_fails:
  "fst (runBatch_catch trx e s1 :: (js_error + 'a) \<times> 'u world) = Inl e"
  by (cases "instanceof_LockError e")
    (simp_all add: runBatch_catch_lock(1) runBatch_catch_other(1))

lemma freeLock_Inr:
  assumes "freeLock trx s1 = (Inr y, s')"
  shows "\<exists>rows :: int list. lock_table (db s') = Some (map (\<lambda>_. 0) rows)"
    and "trace s' = trace s1 @ [Query (conn_of trx) (UpdateLock 0)]"
proof -
  from assms obtain rows where "lock_table (db s1) = Some rows"
    by (cases "lock_table (db s1)") (auto simp: freeLock_def update_lock_def Let_def)
  with assms have "lock_table (db s') = Some (map (\<lambda>_. 0) rows)"
    and t: "trace s' = trace s1 @ [Query (conn_of trx) (UpdateLock 0)]"
    by (auto simp: freeLock_def update_lock_def Let_def emit_def)
  then show "\<exists>rows :: int list. lock_table (db s') = Some (map (\<lambda>_. 0) rows)" by blast
  show "trace s' = trace s1 @ [Query (conn_of trx) (UpdateLock 0)]" by (rule t)
qed

lemma runBatch_Inr:
  assumes "runBatch ms d trx s = (Inr r, s')"
  shows "runBatch_try ms d trx s = (Inr r, s')"
proof (cases "runBatch_try ms d trx s")
  case (Pair res s1)
  show ?thesis
  proof (cases res)
    case (Inl e)
    with Pair assms have "runBatch_catch trx e s1 = (Inr r, s')"
      by (simp add: runBatch_def catch_p_def)
    moreover have "fst (runBatch_catch trx e s1
        :: (js_error + int \<times> string list) \<times> 'a world) = Inl e"
      by (rule runBatch_catch_fails)
    ultimately show ?thesis by simp
  next
    case (Inr x)
    with Pair assms show ?thesis by (simp add: runBatch_def catch_p_def)
  qed
qed

lemma runBatch_held:
  assumes "lock_table (db s) = Some (v # vs)" and "v \<noteq> 0"
  shows "fst (runBatch ms d trx s) = Inl (LockError ''Migration table is already locked'')"
    and "db (snd (runBatch ms d trx s)) = db s"
    and "filter is_lock_write (new_events s (snd (runBatch ms d trx s))) = []"
proof -
  let ?e = "LockError ''Migration table is already locked''"
  obtain s1 where g: "getLock trx s = (Inl ?e, s1)"
    using getLock_held(1) [OF assms, of trx] by (cases "getLock trx s") simp
  then have "runBatch_try ms d trx s = (Inl ?e, s1)"
    unfolding runBatch_try_def tap_p_def by (intro then_p_fails)
  then have eq: "runBatch ms d trx s = runBatch_catch trx ?e s1"
    by (simp add: runBatch_def catch_p_def)
  have l: "instanceof_LockError ?e" by simp
  show "fst (runBatch ms d trx s) = Inl ?e"
    unfolding eq by (rule runBatch_catch_fails)
  show "db (snd (runBatch ms d trx s)) = db s"
    unfolding eq using runBatch_catch_lock(2) [OF l, of trx s1] getLock_held(2) [OF assms, of trx] g
    by simp
  from getLock_held_trace [OF assms, of trx] g
  obtain evs where "trace s1 = trace s @ evs" "filter is_lock_write evs = []" by auto
  moreover have "\<exists>ws. trace (snd (runBatch_catch trx ?e s1
        :: (js_error + int \<times> string list) \<times> 'a world)) = trace s1 @ map Warn ws"
    by (rule runBatch_catch_lock(3) [OF l])
  then obtain ws where "trace (snd (runBatch_catch trx ?e s1
        :: (js_error + int \<times> string list) \<times> 'a world)) = trace s1 @ map Warn ws" by blast
  ultimately have "new_events s (snd (runBatch ms d trx s)) = evs @ map Warn ws"
    unfolding eq by (intro new_events_append) simp
  with \<open>filter is_lock_write evs = []\<close>
  show "filter is_lock_write (new_events s (snd (runBatch ms d trx s))) = []"
    by (simp add: no_lock_write_warns)
qed

text \<open>
  C2. A batch that fails rethrows the error its chain failed with. When that error is a
  \<^verbatim>\<open>LockError\<close>, the catch callback only warns: it leaves the store as it is and writes no
  lock row; in particular, on a lock row that reads non-zero the whole run changes nothing
  in the store and issues no write to the lock table. For any other error the callback
  warns and then issues the release (every lock row set to 0, or a failing statement
  when the lock table is gone) as its last statement, and the error is the same whether
  the release succeeds or not. A batch that succeeds ends with the release, and the lock
  rows hold 0.
\<close>

theorem runBatch_lock_cleanup:
  "(\<forall>e s1. runBatch_try ms d trx s = (Inl e, s1) \<longrightarrow>
      fst (runBatch ms d trx s) = Inl e
      \<and> (instanceof_LockError e \<longrightarrow>
           db (snd (runBatch ms d trx s)) = db s1
           \<and> filter is_lock_write (new_events s1 (snd (runBatch ms d trx s))) = [])
      \<and> (\<not> instanceof_LockError e \<longrightarrow>
           (\<exists>ws. new_events s1 (snd (runBatch ms d trx s))
                    = map Warn ws @ [Query (conn_of trx) (UpdateLock 0)])
           \<and> lock_table (db (snd (runBatch ms d trx s)))
               = map_option (map (\<lambda>_. 0)) (lock_table (db s1))))
   \<and> (\<forall>v vs. lock_table (db s) = Some (v # vs) \<and> v \<noteq> 0 \<longrightarrow>
        fst (runBatch ms d trx s) = Inl (LockError ''Migration table is already locked'')
        \<and> db (snd (runBatch ms d trx s)) = db s
        \<and> filter is_lock_write (new_events s (snd (runBatch ms d trx s))) = [])
   \<and> (\<forall>r s'. runBatch ms d trx s = (Inr r, s') \<longrightarrow>
        runBatch_try ms d trx s = (Inr r, s')
        \<and> (\<exists>rows :: int list. lock_table (db s') = Some (map (\<lambda>_. 0) rows))
        \<and> last (trace s') = Query (conn_of trx) (UpdateLock 0))"
proof (intro conjI allI impI)
  fix e s1 assume a: "runBatch_try ms d trx s = (Inl e, s1)"
  then have eq: "runBatch ms d trx s = runBatch_catch trx e s1"
    by (simp add: runBatch_def catch_p_def)
  show "fst (runBatch ms d trx s) = Inl e"
    unfolding eq by (rule runBatch_catch_fails)
  { assume l: "instanceof_LockError e"
    then show "db (snd (runBatch ms d trx s)) = db s1"
      unfolding eq by (simp add: runBatch_catch_lock)
    have "\<exists>ws. trace (snd (runBatch_catch trx e s1
        :: (js_error + int \<times> string list) \<times> 'a world)) = trace s1 @ map Warn ws"
      by (rule runBatch_catch_lock(3) [OF l])
    then obtain ws where "trace (snd (runBatch_catch trx e s1
        :: (js_error + int \<times> string list) \<times> 'a world)) = trace s1 @ map Warn ws" by blast
    then show "filter is_lock_write (new_events s1 (snd (runBatch ms d trx s))) = []"
      unfolding eq by (simp add: new_events_append no_lock_write_warns) }
  { assume "\<not> instanceof_LockError e"
    then show "\<exists>ws. new_events s1 (snd (runBatch ms d trx s))
                    = map Warn ws @ [Query (conn_of trx) (UpdateLock 0)]"
      and "lock_table (db (snd (runBatch ms d trx s)))
               = map_option (map (\<lambda>_. 0)) (lock_table (db s1))"
      unfolding eq by (simp_all add: runBatch_catch_other) }
next
  fix v vs assume "lock_table (db s) = Some (v # vs) \<and> v \<noteq> 0"
  then have h: "lock_table (db s) = Some (v # vs)" "v \<noteq> 0" by simp_all
  show "fst (runBatch ms d trx s) = Inl (LockError ''Migration table is already locked'')"
    and "db (snd (runBatch ms d trx s)) = db s"
    and "filter is_lock_write (new_events s (snd (runBatch ms d trx s))) = []"
    by (rule runBatch_held [OF h])+
next
  fix r s' assume a: "runBatch ms d trx s = (Inr r, s')"
  show t: "runBatch_try ms d trx s = (Inr r, s')"
    by (rule runBatch_Inr [OF a])
  then obtain s1 y where "freeLock trx s1 = (Inr y, s')"
    unfolding runBatch_try_def tap_p_Inr by blast
  from freeLock_Inr [OF this]
  show "\<exists>rows :: int list. lock_table (db s') = Some (map (\<lambda>_. 0) rows)"
    and "last (trace s') = Query (conn_of trx) (UpdateLock 0)" by simp_all
qed

theorem runBatch_lock_cleanup_witness:
  "fst (runBatch_try [''a.js''] Up None
         (ex_world [(''a.js'', ex_migration\<lparr>up := Some ex_drop_lock\<rparr>)] (ex_store [] [0])))
     = Inl (Error ''boom'')
   \<and> fst (runBatch [''a.js''] Up None
         (ex_world [(''a.js'', ex_migration\<lparr>up := Some ex_drop_lock\<rparr>)] (ex_store [] [0])))
     = Inl (Error ''boom'')
   \<and> fst (runBatch [''a.js''] Up None (ex_world [(''a.js'', ex_migration)] (ex_store [] [1])))
     = Inl (LockError ''Migration table is already locked'')
   \<and> lock_table (db (snd (runBatch [''a.js''] Up None
         (ex_world [(''a.js'', ex_migration)] (ex_store [] [1]))))) = Some [1]
   \<and> fst (runBatch [''a.js''] Up None (ex_world [(''a.js'', ex_migration)] (ex_store [] [0])))
     = Inr (1, [''a.js''])
   \<and> lock_table (db (snd (runBatch [''a.js''] Up None
         (ex_world [(''a.js'', ex_migration)] (ex_store [] [0]))))) = Some [0]"
  using runBatch_lock_cleanup [of "[''a.js'']" Up None
      "ex_world [(''a.js'', ex_migration\<lparr>up := Some ex_drop_lock\<rparr>)] (ex_store [] [0])"]
    runBatch_lock_cleanup [of "[''a.js'']" Up None
      "ex_world [(''a.js'', ex_migration)] (ex_store [] [1])"]
    runBatch_lock_cleanup [of "[''a.js'']" Up None
      "ex_world [(''a.js'', ex_migration)] (ex_store [] [0])"]
  by (simp add: run_defs ex_defs)

section \<open>Configuration and the two lists\<close>

lemma assign_no_opts [simp]: "assign c no_opts = c"
  by (simp add: assign_def no_opts_def)

lemma setConfig_no_opts [simp]: "setConfig (Some c) no_opts = c"
  by (simp add: setConfig_def)

lemma listAll_run: "listAll s = (Inr (listAll_of (config s)), s)"
  by (simp add: listAll_def then_p_def set_config_def with_config_def resolve_def)

lemma ensureTable_run:
  "fst (ensureTable c s) = Inr ()"
  "migrations_table (db (snd (ensureTable c s))) = Some (applied_rows (db s))"
  "lock_table (db (snd (ensureTable c s)))
     = Some (case lock_table (db s) of None \<Rightarrow> [0] | Some [] \<Rightarrow> [0] | Some (v # vs) \<Rightarrow> v # vs)"
  "user_data (db (snd (ensureTable c s))) = user_data (db s)"
  "config (snd (ensureTable c s)) = config s"
  by (cases "migrations_table (db s)"; cases "lock_table (db s)";
      simp add: ensureTable_def then_p_def hasTable_def table_exists_def emit_def
        createMigrationTable_def createMigrationLockTable_def select_lock_def insert_lock_def
        resolve_def Let_def applied_rows_def split: list.splits)+

lemma listCompleted_run:
  "fst (listCompleted c s) = Inr (applied_names (db s))"
  "db (snd (listCompleted c s)) = db (snd (ensureTable c s))"
  "config (snd (listCompleted c s)) = config s"
proof -
  obtain s1 where e: "ensureTable c s = (Inr (), s1)"
    using ensureTable_run(1) [of c s] by (cases "ensureTable c s") simp
  have m: "migrations_table (db s1) = Some (applied_rows (db s))"
    using ensureTable_run(2) [of c s] e by simp
  have c: "config s1 = config s" using ensureTable_run(5) [of c s] e by simp
  show "fst (listCompleted c s) = Inr (applied_names (db s))"
    "db (snd (listCompleted c s)) = db (snd (ensureTable c s))"
    "config (snd (listCompleted c s)) = config s"
    using e m c by (simp_all add: listCompleted_def then_p_def select_names_def emit_def
        applied_names_def Let_def)
qed

section \<open>Status\<close>

text \<open>
  C7 (as the code has it). On an existing migrations table, \<^verbatim>\<open>status\<close> returns the number
  of rows of the table minus the number of defined migrations (\<^verbatim>\<open>db.length - code.length\<close>),
  the negation of what the claim states; it is 0 exactly when the two numbers are equal.
\<close>

theorem status_counts:
  assumes "migrations_table (db s) = Some rows"
  shows "fst (status opts s)
           = Inr (int (length rows) - int (length (listAll_of (setConfig (Some (config s)) opts))))
       \<and> (fst (status opts s) = Inr 0
            \<longleftrightarrow> length rows = length (listAll_of (setConfig (Some (config s)) opts)))"
  using assms
  by (simp add: status_def then_p_def set_config_def select_all_def listAll_run resolve_def
      emit_def Let_def)

theorem status_counts_witness:
  "fst (status no_opts (ex_world [(''a.js'', ex_migration), (''b.js'', ex_migration)]
          (ex_store [ex_record 1 ''a.js'' 1] [0]))) = Inr (- 1)"
  using status_counts [of "ex_world [(''a.js'', ex_migration), (''b.js'', ex_migration)]
          (ex_store [ex_record 1 ''a.js'' 1] [0])" "[ex_record 1 ''a.js'' 1]" no_opts]
  by (simp add: run_defs ex_defs)

text \<open>
  C7 as stated fails: with one defined migration and none applied, defined minus applied
  is 1 and \<^verbatim>\<open>status\<close> returns -1.
\<close>

theorem status_sign_counterexample:
  "fst (status no_opts (ex_world [(''a.js'', ex_migration)] (ex_store [] [0]))) = Inr (- 1)
   \<and> int (length (listAll_of (config (ex_world [(''a.js'', ex_migration)] (ex_store [] [0])))))
       - int (length (applied_rows (db (ex_world [(''a.js'', ex_migration)] (ex_store [] [0])))))
     = 1"
  by (simp add: run_defs ex_defs applied_rows_def)

section \<open>Current version\<close>

lemma baseExtremum_Some:
  "baseExtremum xs (Some c) = Some (Max (insert c (set xs)))"
proof (induction xs arbitrary: c)
  case Nil
  then show ?case by simp
next
  case (Cons x xs)
  have "baseExtremum (x # xs) (Some c) = baseExtremum xs (Some (max c x))"
    by (auto simp: max_def not_less dest: less_imp_le)
  also have "\<dots> = Some (Max (insert (max c x) (set xs)))"
    by (rule Cons.IH)
  also have "Max (insert (max c x) (set xs)) = Max (insert c (set (x # xs)))"
  proof (cases "set xs = {}")
    case True
    then show ?thesis by simp
  next
    case False
    then show ?thesis by (simp add: max.assoc)
  qed
  finally show ?case .
qed

lemma lodash_max_eq:
  "lodash_max xs = (if xs = [] then None else Some (Max (set xs)))"
  by (cases xs) (simp_all add: lodash_max_def baseExtremum_Some)

lemma split_first_spec:
  "CHR ''_'' \<notin> set (split_first v)
   \<and> (if CHR ''_'' \<in> set v then \<exists>rest. v = split_first v @ CHR ''_'' # rest
       else split_first v = v)"
proof -
  have a: "CHR ''_'' \<notin> set (split_first v)"
    unfolding split_first_def by (induction v) auto
  have b: "CHR ''_'' \<in> set v \<Longrightarrow> \<exists>rest. v = split_first v @ CHR ''_'' # rest"
    unfolding split_first_def
    by (induction v) auto
  have c: "CHR ''_'' \<notin> set v \<Longrightarrow> split_first v = v"
    unfolding split_first_def by (induction v) auto
  from a b c show ?thesis by auto
qed

text \<open>
  C9. \<^verbatim>\<open>currentVersion\<close> returns "none" when no migration is applied, and otherwise the
  greatest, in the order in which JavaScript compares strings, of the applied names cut
  before their first underscore (the whole name when it has none).
\<close>

theorem currentVersion_max:
  "fst (currentVersion opts s)
     = Inr (if applied_names (db s) = [] then ''none''
            else Max (set (map split_first (applied_names (db s)))))
   \<and> (\<forall>v. CHR ''_'' \<notin> set (split_first v)
        \<and> (if CHR ''_'' \<in> set v then \<exists>rest. v = split_first v @ CHR ''_'' # rest
            else split_first v = v))"
proof -
  let ?s0 = "s\<lparr>config := setConfig (Some (config s)) opts\<rparr>"
  obtain s1 where l: "listCompleted Knex ?s0 = (Inr (applied_names (db s)), s1)"
    using listCompleted_run(1) [of Knex ?s0] by (cases "listCompleted Knex ?s0") simp
  then have "fst (currentVersion opts s)
     = Inr (if applied_names (db s) = [] then ''none''
            else Max (set (map split_first (applied_names (db s)))))"
    by (simp add: currentVersion_def then_p_def set_config_def resolve_def lodash_max_eq)
  with split_first_spec show ?thesis by blast
qed

theorem currentVersion_max_witness:
  "fst (currentVersion no_opts (ex_world [] (ex_store [ex_record 1 ''20240101_init'' 1] [0])))
     = Inr ''20240101''
   \<and> fst (currentVersion no_opts (ex_world [] (ex_store [] [0]))) = Inr ''none''"
  using currentVersion_max [of no_opts "ex_world [] (ex_store [ex_record 1 ''20240101_init'' 1] [0])"]
    currentVersion_max [of no_opts "ex_world [] (ex_store [] [0])"]
  by (simp add: ex_defs applied_names_def applied_rows_def split_first_def Migrator_def)


section \<open>What a run adds to the log\<close>

lemma addsD:
  assumes "adds cfg P m" and "config s = cfg" and "m s = (r, s')"
  obtains evs where "config s' = cfg" "trace s' = trace s @ evs" "list_all P evs"
  using assms unfolding adds_def by (metis snd_conv)

lemma addsI:
  assumes "\<And>s. config s = cfg \<Longrightarrow> config (snd (m s)) = cfg"
    and "\<And>s. config s = cfg \<Longrightarrow> \<exists>evs. trace (snd (m s)) = trace s @ evs \<and> list_all P evs"
  shows "adds cfg P m"
  using assms unfolding adds_def by blast

lemma adds_resolve: "adds cfg P (resolve x)"
  by (simp add: adds_def resolve_def)

lemma adds_reject: "adds cfg P (reject e)"
  by (simp add: adds_def reject_def)

lemma adds_if: "adds cfg P a \<Longrightarrow> adds cfg P b \<Longrightarrow> adds cfg P (if c then a else b)"
  by simp

lemma adds_then:
  assumes "adds cfg P m" and "\<And>x. adds cfg P (f x)"
  shows "adds cfg P (then_p m f)"
proof -
  have "config (snd (then_p m f s)) = cfg
      \<and> (\<exists>evs. trace (snd (then_p m f s)) = trace s @ evs \<and> list_all P evs)"
    if c: "config s = cfg" for s
  proof -
    obtain r s1 where m: "m s = (r, s1)" by (cases "m s")
    from addsD [OF assms(1) c m] obtain evs1 where
      1: "config s1 = cfg" "trace s1 = trace s @ evs1" "list_all P evs1"
      by blast
    show ?thesis
    proof (cases r)
      case (Inl e)
      with m 1 show ?thesis by (simp add: then_p_def)
    next
      case (Inr x)
      obtain r2 s2 where f: "f x s1 = (r2, s2)" by (cases "f x s1")
      from addsD [OF assms(2) 1(1) f] obtain evs2 where
        2: "config s2 = cfg" "trace s2 = trace s1 @ evs2" "list_all P evs2"
        by blast
      from 1 2 have "trace s2 = trace s @ (evs1 @ evs2)" "list_all P (evs1 @ evs2)"
        by simp_all
      with m Inr f 2 show ?thesis by (auto simp: then_p_def)
    qed
  qed
  then show ?thesis unfolding adds_def by blast
qed

lemma adds_catch:
  assumes "adds cfg P m" and "\<And>e. adds cfg P (h e)"
  shows "adds cfg P (catch_p m h)"
proof -
  have "config (snd (catch_p m h s)) = cfg
      \<and> (\<exists>evs. trace (snd (catch_p m h s)) = trace s @ evs \<and> list_all P evs)"
    if c: "config s = cfg" for s
  proof -
    obtain r s1 where m: "m s = (r, s1)" by (cases "m s")
    from addsD [OF assms(1) c m] obtain evs1 where
      1: "config s1 = cfg" "trace s1 = trace s @ evs1" "list_all P evs1"
      by blast
    show ?thesis
    proof (cases r)
      case (Inr x)
      with m 1 show ?thesis by (simp add: catch_p_def)
    next
      case (Inl e)
      obtain r2 s2 where f: "h e s1 = (r2, s2)" by (cases "h e s1")
      from addsD [OF assms(2) 1(1) f] obtain evs2 where
        2: "config s2 = cfg" "trace s2 = trace s1 @ evs2" "list_all P evs2"
        by blast
      from 1 2 have "trace s2 = trace s @ (evs1 @ evs2)" "list_all P (evs1 @ evs2)"
        by simp_all
      with m Inl f 2 show ?thesis by (auto simp: catch_p_def)
    qed
  qed
  then show ?thesis unfolding adds_def by blast
qed

lemma adds_tap:
  assumes "adds cfg P m" and "\<And>x. adds cfg P (f x)"
  shows "adds cfg P (tap_p m f)"
  unfolding tap_p_def using assms by (intro adds_then adds_resolve)

lemma adds_finally_throw:
  assumes "adds cfg P m"
  shows "adds cfg P (finally_throw m e)"
  using assms unfolding adds_def finally_throw_def by simp

lemma adds_with_config:
  assumes "adds cfg P (f cfg)"
  shows "adds cfg P (with_config f)"
  using assms unfolding adds_def with_config_def by simp

lemma adds_with_activeMigration:
  assumes "\<And>c. adds cfg P (f c)"
  shows "adds cfg P (with_activeMigration f)"
  using assms unfolding adds_def with_activeMigration_def by simp

lemma adds_emit:
  assumes "P ev" and "\<And>s. snd (m s) = emit ev s \<or> (\<exists>d. snd (m s) = (emit ev s)\<lparr>db := d\<rparr>)"
  shows "adds cfg P m"
proof (rule addsI)
  fix s
  from assms(2) [of s]
  show "config s = cfg \<Longrightarrow> config (snd (m s)) = cfg"
    "\<exists>evs. trace (snd (m s)) = trace s @ evs \<and> list_all P evs"
    using assms(1) by (auto simp: emit_def)
qed

lemma adds_warn: "P (Warn msg) \<Longrightarrow> adds cfg P (warn msg)"
  by (rule adds_emit [where ev = "Warn msg"]) (simp_all add: warn_def)

lemma adds_hasTable: "P (Query c (HasTable t)) \<Longrightarrow> adds cfg P (hasTable c t)"
  by (rule adds_emit [where ev = "Query c (HasTable t)"]) (simp_all add: hasTable_def)

lemma adds_createMigrationTable:
  "P (Query c (CreateTable MigrationsTable)) \<Longrightarrow> adds cfg P (createMigrationTable c)"
  by (rule adds_emit [where ev = "Query c (CreateTable MigrationsTable)"])
    (auto simp: createMigrationTable_def Let_def emit_def)

lemma adds_createMigrationLockTable:
  "P (Query c (CreateTable LockTable)) \<Longrightarrow> adds cfg P (createMigrationLockTable c)"
  by (rule adds_emit [where ev = "Query c (CreateTable LockTable)"])
    (auto simp: createMigrationLockTable_def Let_def emit_def)

lemma adds_select_lock:
  "P (Query c (if fu then SelectLockForUpdate else SelectLock))
     \<Longrightarrow> adds cfg P (select_lock c fu)"
  by (rule adds_emit [where ev = "Query c (if fu then SelectLockForUpdate else SelectLock)"])
    (auto simp: select_lock_def Let_def emit_def split: option.splits)

lemma adds_insert_lock: "P (Query c (InsertLock v)) \<Longrightarrow> adds cfg P (insert_lock c v)"
  by (rule adds_emit [where ev = "Query c (InsertLock v)"])
    (auto simp: insert_lock_def Let_def emit_def split: option.splits)

lemma adds_update_lock: "P (Query c (UpdateLock v)) \<Longrightarrow> adds cfg P (update_lock c v)"
  by (rule adds_emit [where ev = "Query c (UpdateLock v)"])
    (auto simp: update_lock_def Let_def emit_def split: option.splits)

lemma adds_select_names: "P (Query c SelectNames) \<Longrightarrow> adds cfg P (select_names c)"
  by (rule adds_emit [where ev = "Query c SelectNames"])
    (auto simp: select_names_def Let_def emit_def split: option.splits)

lemma adds_select_max_batch:
  "P (Query c SelectMaxBatch) \<Longrightarrow> adds cfg P (select_max_batch c)"
  by (rule adds_emit [where ev = "Query c SelectMaxBatch"])
    (auto simp: select_max_batch_def Let_def emit_def split: option.splits)

lemma adds_select_last_batch:
  "P (Query c SelectLastBatch) \<Longrightarrow> adds cfg P (select_last_batch c)"
  by (rule adds_emit [where ev = "Query c SelectLastBatch"])
    (auto simp: select_last_batch_def Let_def emit_def split: option.splits)

lemma adds_insert_record:
  "P (Query c (InsertRecord n b t)) \<Longrightarrow> adds cfg P (insert_record c n b t)"
  by (rule adds_emit [where ev = "Query c (InsertRecord n b t)"])
    (auto simp: insert_record_def Let_def emit_def split: option.splits)

lemma adds_delete_record:
  "P (Query c (DeleteRecord n)) \<Longrightarrow> adds cfg P (delete_record c n)"
  by (rule adds_emit [where ev = "Query c (DeleteRecord n)"])
    (auto simp: delete_record_def Let_def emit_def split: option.splits)

lemma adds_transaction:
  fixes fn :: "nat \<Rightarrow> ('a, 'u) promise"
  assumes "\<And>t. P (Begin t)" "\<And>t. P (Commit t)" "\<And>t. P (Rollback t)"
    and "\<And>t. adds cfg P (fn t)"
  shows "adds cfg P (knex_transaction fn)"
proof -
  have "config (snd (knex_transaction fn s)) = cfg
      \<and> (\<exists>evs. trace (snd (knex_transaction fn s)) = trace s @ evs \<and> list_all P evs)"
    if c: "config s = cfg" for s :: "'u world"
  proof -
    let ?t = "next_trx s"
    let ?s0 = "emit (Begin ?t) (s\<lparr>next_trx := Suc ?t\<rparr>)"
    have c0: "config ?s0 = cfg" using c by (simp add: emit_def)
    obtain r s1 where f: "fn ?t ?s0 = (r, s1)" by (cases "fn ?t ?s0")
    from addsD [OF assms(4) c0 f] obtain evs where
      1: "config s1 = cfg" "trace s1 = trace ?s0 @ evs" "list_all P evs"
      by blast
    show ?thesis
    proof (cases r)
      case (Inl e)
      with f 1 have "trace (snd (knex_transaction fn s))
          = trace s @ (Begin ?t # evs @ [Rollback ?t])"
        by (simp add: knex_transaction_def Let_def emit_def)
      moreover have "list_all P (Begin ?t # evs @ [Rollback ?t])"
        using assms(1,3) 1(3) by simp
      ultimately show ?thesis using f 1 Inl
        by (auto simp: knex_transaction_def Let_def emit_def)
    next
      case (Inr x)
      with f 1 have "trace (snd (knex_transaction fn s))
          = trace s @ (Begin ?t # evs @ [Commit ?t])"
        by (simp add: knex_transaction_def Let_def emit_def)
      moreover have "list_all P (Begin ?t # evs @ [Commit ?t])"
        using assms(1,2) 1(3) by simp
      ultimately show ?thesis using f 1 Inr
        by (auto simp: knex_transaction_def Let_def emit_def)
    qed
  qed
  then show ?thesis unfolding adds_def by blast
qed

lemma adds_invoke:
  assumes "P (Exec c nm d)"
  shows "adds cfg P (invoke migration d c nm)"
proof (rule addsI)
  fix s :: "'a world"
  have "config (snd (invoke migration d c nm s)) = config s
      \<and> (trace (snd (invoke migration d c nm s)) = trace s @ []
          \<or> trace (snd (invoke migration d c nm s)) = trace s @ [Exec c nm d])"
    by (auto simp: invoke_def emit_def split: option.splits direction.splits prod.splits)
  with assms show "config s = cfg \<Longrightarrow> config (snd (invoke migration d c nm s)) = cfg"
    "\<exists>evs. trace (snd (invoke migration d c nm s)) = trace s @ evs \<and> list_all P evs"
    by (auto intro: exI [of _ "[]"] exI [of _ "[Exec c nm d]"])
qed

lemma benignD: "benign P \<Longrightarrow> bookkeeping ev \<Longrightarrow> P ev"
  by (simp add: benign_def)

lemma adds_ensureTable:
  assumes "benign P"
  shows "adds cfg P (ensureTable c)"
  unfolding ensureTable_def
  by (intro adds_then adds_if adds_resolve adds_hasTable adds_select_lock
      adds_createMigrationTable adds_createMigrationLockTable adds_insert_lock
      benignD [OF assms])
    simp_all

lemma adds_listCompleted:
  assumes "benign P"
  shows "adds cfg P (listCompleted c)"
  unfolding listCompleted_def
  by (intro adds_then adds_ensureTable assms adds_select_names benignD [OF assms]) simp

lemma adds_isLocked:
  assumes "benign P"
  shows "adds cfg P (isLocked t)"
proof -
  have "adds cfg P (case data of [] \<Rightarrow> reject e | v # x \<Rightarrow> resolve v)"
    for data :: "int list" and e
    by (cases data) (simp_all add: adds_resolve adds_reject)
  then show ?thesis
    unfolding isLocked_def
    by (intro adds_then adds_select_lock benignD [OF assms]) simp_all
qed

lemma adds_getLock:
  assumes "benign P"
  shows "adds cfg P (getLock trx)"
proof -
  have body: "adds cfg P (then_p
             (then_p (isLocked t)
                (\<lambda>isLocked. if isLocked \<noteq> 0
                             then reject (Error ''Migration table is already locked'')
                             else resolve ()))
             (\<lambda>_. lockMigrations t))" for t
    unfolding lockMigrations_def
    by (intro adds_then adds_if adds_resolve adds_reject adds_isLocked assms adds_update_lock
        benignD [OF assms]) simp
  show ?thesis
  proof (cases trx)
    case None
    then show ?thesis unfolding getLock_def Let_def
      by (simp, intro adds_catch adds_reject adds_transaction body benignD [OF assms]) simp_all
  next
    case (Some t)
    then show ?thesis unfolding getLock_def Let_def
      by (simp, intro adds_catch adds_reject body)
  qed
qed

lemma adds_freeLock:
  assumes "benign P"
  shows "adds cfg P (freeLock trx)"
  unfolding freeLock_def by (intro adds_update_lock benignD [OF assms]) simp

lemma adds_latestBatchNumber:
  assumes "benign P"
  shows "adds cfg P (latestBatchNumber trx)"
  unfolding latestBatchNumber_def
  by (intro adds_then adds_select_max_batch adds_resolve benignD [OF assms]) simp

lemma adds_validate_all: "adds cfg P (validate_all ms)"
proof -
  have "adds cfg P (case r of Inl e \<Rightarrow> reject e | Inr vs \<Rightarrow> resolve vs)"
    for r :: "js_error + string list"
    by (cases r) (simp_all add: adds_resolve adds_reject)
  then show ?thesis unfolding validate_all_def by (intro adds_with_config)
qed

lemma adds_runBatch_catch:
  assumes b: "benign P"
  shows "adds cfg P (runBatch_catch trx e)"
proof -
  have w: "\<And>msg. adds cfg P (warn msg)" by (rule adds_warn) (simp add: benignD [OF b])
  have a: "adds cfg P (case fileName of
                    None \<Rightarrow> resolve ()
                  | Some f \<Rightarrow>
                      if f \<noteq> []
                      then warn (''migration file '' @ [CHR 0x22] @ f @ [CHR 0x22] @ '' failed'')
                      else resolve ())" for fileName
    by (cases fileName) (simp_all add: adds_resolve w)
  show ?thesis unfolding runBatch_catch_def
    by (intro adds_if adds_then adds_finally_throw adds_with_config adds_freeLock b w a
        adds_resolve adds_with_activeMigration)
qed

section \<open>The connection of each statement of a batch\<close>

lemma benign_batch_event_ok: "benign (batch_event_ok cfg trx)"
  unfolding benign_def
proof (intro allI impI)
  fix ev assume "bookkeeping ev"
  then show "batch_event_ok cfg trx ev"
    by (cases "(cfg, trx, ev)" rule: batch_event_ok.cases) simp_all
qed

lemma adds_warnPromise:
  assumes "benign P" and "adds cfg P v"
  shows "adds cfg P (warnPromise v nm)"
  unfolding warnPromise_def
  by (intro adds_then adds_if adds_resolve adds_warn assms(2) benignD [OF assms(1)]) simp

lemma adds_run_migration:
  "adds cfg (batch_event_ok cfg trx) (run_migration cfg d trx nm)"
proof (cases "trx = None
    \<and> useTransaction (map_of (migrationModules cfg) nm) (Some (disableTransactions cfg))")
  case True
  then show ?thesis
    unfolding run_migration_def Let_def transaction_m_def
    by (simp, intro adds_transaction adds_warnPromise adds_invoke benign_batch_event_ok)
      simp_all
next
  case False
  then have "adds cfg (batch_event_ok cfg trx)
     (warnPromise (invoke (map_of (migrationModules cfg) nm) d (conn_of trx) nm) nm)"
    by (intro adds_warnPromise adds_invoke benign_batch_event_ok) auto
  with False show ?thesis
    unfolding run_migration_def Let_def by auto
qed

lemma adds_persist_record:
  "adds cfg (batch_event_ok cfg' trx) (persist_record b d trx nm)"
proof -
  have i: "adds cfg (batch_event_ok cfg' trx) (insert_record (conn_of trx) nm b t)" for t
    by (rule adds_insert_record) simp
  have dl: "adds cfg (batch_event_ok cfg' trx) (delete_record (conn_of trx) nm)"
    by (rule adds_delete_record) simp
  show ?thesis
    using i dl unfolding adds_def persist_record_def by (cases d) simp_all
qed

lemma adds_waterfall:
  "adds cfg (batch_event_ok cfg trx) (waterfall cfg b d trx log ms)"
proof (induction ms arbitrary: log)
  case Nil
  show ?case by (simp add: adds_resolve)
next
  case (Cons nm rest)
  show ?case
    by (simp, intro adds_then adds_run_migration adds_persist_record Cons.IH)
qed

lemma adds_waterfallBatch:
  "adds cfg (batch_event_ok cfg trx) (waterfallBatch b ms d trx)"
proof (rule addsI)
  fix s :: "'a world"
  assume c: "config s = cfg"
  let ?m = "then_p (waterfall cfg b d trx [] ms) (\<lambda>log. resolve (b, log))"
  let ?s = "s\<lparr>activeMigration := (if ms = [] then activeMigration s else Some (last ms))\<rparr>"
  have a: "adds cfg (batch_event_ok cfg trx) ?m"
    by (intro adds_then adds_waterfall adds_resolve)
  have e: "waterfallBatch b ms d trx s = ?m ?s"
    using c by (simp add: waterfallBatch_def)
  have c': "config ?s = cfg" using c by simp
  obtain r s' where m: "?m ?s = (r, s')" by (cases "?m ?s")
  from addsD [OF a c' m] obtain evs where
    "config s' = cfg" "trace s' = trace ?s @ evs" "list_all (batch_event_ok cfg trx) evs"
    by blast
  with e m show "config (snd (waterfallBatch b ms d trx s)) = cfg"
    "\<exists>evs. trace (snd (waterfallBatch b ms d trx s)) = trace s @ evs
        \<and> list_all (batch_event_ok cfg trx) evs"
    by auto
qed

lemma adds_runBatch:
  "adds cfg (batch_event_ok cfg trx) (runBatch ms d trx)"
proof -
  note b = benign_batch_event_ok [of cfg trx]
  have lc: "adds cfg (batch_event_ok cfg trx)
      (case trx of Some t \<Rightarrow> listCompleted (Trx t) | None \<Rightarrow> resolve [])"
    by (cases trx) (simp_all add: adds_resolve adds_listCompleted [OF benign_batch_event_ok])
  show ?thesis
    unfolding runBatch_def runBatch_try_def Let_def
    by (intro adds_catch adds_tap adds_then adds_getLock adds_validate_all
        adds_latestBatchNumber adds_waterfallBatch adds_freeLock adds_runBatch_catch b lc)
qed







section \<open>The default configuration\<close>


lemma adds_listAll: "adds cfg P listAll"
  unfolding adds_def listAll_def
  by (simp add: then_p_def set_config_def with_config_def resolve_def)

lemma adds_migrationData:
  assumes "benign P"
  shows "adds cfg P migrationData"
  unfolding migrationData_def
  by (intro adds_then adds_listAll adds_listCompleted assms adds_resolve)

lemma adds_validateMigrationList: "adds cfg P (validateMigrationList x)"
  unfolding validateMigrationList_def Let_def by (simp add: adds_resolve adds_reject)

lemma latest_unfold:
  "latest opts s =
     then_p (tap_p migrationData validateMigrationList) (\<lambda>(all, completed).
       let migrations = difference all completed in
       with_config (\<lambda>cfg.
         if transactionForAll cfg migrations
         then knex_transaction (\<lambda>trx. runBatch migrations Up (Some trx))
         else runBatch migrations Up None))
       (s\<lparr>config := setConfig (Some (config s)) opts\<rparr>)"
  by (simp add: latest_def then_p_def set_config_def)





section \<open>A failing statement\<close>

text \<open>
  C8 (as the code has it). When the driver rejects the statement with the error object
  at address \<open>err\<close>, \<^verbatim>\<open>query\<close> fails with that same address. The object's message is
  then the rendered statement (the text "undefined" when there is no SQL), the separator
  " - " and the message the driver gave it, in this order; its other fields and all other
  objects are as the driver left them. The last thing emitted is the \<^verbatim>\<open>"query-error"\<close>
  event with that address and the statement.
\<close>

theorem query_rethrows_same_error:
  assumes "query_impl cl connection (prepare cl arg)
             (client_emit (QueryEvent (knexUid connection) (knexTxId connection)
                (prepare cl arg)) s) = (Inl err, s2)"
  shows "fst (query cl connection arg s) = Inl err
       \<and> error_message (heap (snd (query cl connection arg s)) err)
           = js_string (formatQuery (escapeBinding cl) (sql (prepare cl arg))
                          (bindings (prepare cl arg)))
               @ '' - '' @ error_message (heap s2 err)
       \<and> error_name (heap (snd (query cl connection arg s)) err) = error_name (heap s2 err)
       \<and> (\<forall>a. a \<noteq> err \<longrightarrow> heap (snd (query cl connection arg s)) a = heap s2 a)
       \<and> emitted (snd (query cl connection arg s))
           = emitted s2 @ [QueryErrorEvent err (knexUid connection) (knexTxId connection)
                            (prepare cl arg)]"
  using assms by (simp add: query_def Let_def client_emit_def)

theorem query_rethrows_same_error_witness:
  "fst (query ex_client ex_connection
          (QueryObj \<lparr>sql = Some ''select ?'', bindings = Some [0]\<rparr>) ex_client_state) = Inl 0
   \<and> error_message (heap (snd (query ex_client ex_connection
          (QueryObj \<lparr>sql = Some ''select ?'', bindings = Some [0]\<rparr>) ex_client_state)) 0)
       = ''select 0 - boom''
   \<and> emitted (snd (query ex_client ex_connection
          (QueryObj \<lparr>sql = Some ''select ?'', bindings = Some [0]\<rparr>) ex_client_state))
       = [QueryEvent (Some ''__knexUid1'') None \<lparr>sql = Some ''select ?'', bindings = Some [0]\<rparr>,
          QueryErrorEvent 0 (Some ''__knexUid1'') None
            \<lparr>sql = Some ''select ?'', bindings = Some [0]\<rparr>]"
  using query_rethrows_same_error [of ex_client ex_connection
      "QueryObj \<lparr>sql = Some ''select ?'', bindings = Some [0]\<rparr>" ex_client_state 0
      "client_emit (QueryEvent (knexUid ex_connection) (knexTxId ex_connection)
         (prepare ex_client (QueryObj \<lparr>sql = Some ''select ?'', bindings = Some [0]\<rparr>)))
         ex_client_state"]
  by (simp add: ex_client_def ex_connection_def ex_client_state_def prepare_def
      client_emit_def formatQuery_def js_string_def Let_def)

text \<open>
  C8 as stated fails: the driver's message "boom" is not what the new message starts
  with. The statement is put in front of it.
\<close>

theorem query_message_counterexample:
  "error_message (heap (snd (query ex_client ex_connection
          (QueryObj \<lparr>sql = Some ''select ?'', bindings = Some [0]\<rparr>) ex_client_state)) 0)
       = ''select 0 - boom''
   \<and> \<not> prefix ''boom'' ''select 0 - boom''"
  by (simp add: query_def ex_client_def ex_connection_def ex_client_state_def prepare_def
      client_emit_def formatQuery_def js_string_def Let_def)

section \<open>A corrupt migration directory\<close>

lemma sublist_join: "n \<in> set xs \<Longrightarrow> sublist n (join sep xs)"
proof (induction sep xs rule: join.induct)
  case (1 sep)
  then show ?case by simp
next
  case (2 sep x)
  then show ?case by simp
next
  case (3 sep x y ys)
  show ?case
  proof (cases "n = x")
    case True
    then show ?thesis by (simp add: sublist_append)
  next
    case False
    with 3 have "sublist n (join sep (y # ys))" by simp
    then show ?thesis by (metis join.simps(3) sublist_append)
  qed
qed

lemma sublist_corrupt_message: "n \<in> set diff \<Longrightarrow> sublist n (corrupt_message diff)"
  unfolding corrupt_message_def using sublist_join [of n diff "'', ''"]
  by (subst sublist_append) (rule disjI2, rule disjI1)

lemma ensureTable_same:
  assumes "migrations_table (db s) = Some rows" and "lock_table (db s) = Some (v # vs)"
  shows "db (snd (ensureTable c s)) = db s"
  using assms
  by (simp add: ensureTable_def then_p_def hasTable_def table_exists_def emit_def
        select_lock_def resolve_def Let_def)

lemma ensureTable_next_id:
  assumes "migrations_table (db s) = Some rows"
  shows "next_id (db (snd (ensureTable c s))) = next_id (db s)"
  using assms
  by (cases "lock_table (db s)")
    (simp_all add: ensureTable_def then_p_def hasTable_def table_exists_def emit_def
        createMigrationLockTable_def select_lock_def insert_lock_def
        resolve_def Let_def split: list.splits)

lemma migrationData_run:
  "migrationData s = (Inr (listAll_of (config s), applied_names (db s)), snd (listCompleted Knex s))"
proof -
  obtain s1 where l: "listCompleted Knex s = (Inr (applied_names (db s)), s1)"
    using listCompleted_run(1) [of Knex s] by (cases "listCompleted Knex s") simp
  then show ?thesis
    by (simp add: migrationData_def then_p_def listAll_run resolve_def)
qed

lemma corrupt_stops:
  assumes "difference (applied_names (db s)) (listAll_of (setConfig (Some (config s)) opts)) = diff"
    and "diff \<noteq> []"
  shows "then_p (set_config opts) (\<lambda>_. then_p (tap_p migrationData validateMigrationList) K) s
     = (Inl (Error (corrupt_message diff)),
        snd (listCompleted Knex (s\<lparr>config := setConfig (Some (config s)) opts\<rparr>)))"
proof -
  let ?s0 = "s\<lparr>config := setConfig (Some (config s)) opts\<rparr>"
  have "tap_p migrationData validateMigrationList ?s0
     = (Inl (Error (corrupt_message diff)), snd (listCompleted Knex ?s0))"
    using assms
    by (simp add: tap_p_def then_p_def migrationData_run validateMigrationList_def Let_def
        reject_def corrupt_message_def)
  then show ?thesis by (simp add: then_p_def set_config_def)
qed

lemma listCompleted_bookkeeping:
  "list_all bookkeeping (new_events s (snd (listCompleted Knex s)))"
proof -
  have b: "benign bookkeeping" by (simp add: benign_def)
  obtain r s' where m: "listCompleted Knex s = (r, s')" by (cases "listCompleted Knex s")
  from addsD [OF adds_listCompleted [OF b] refl m] obtain evs where
    "trace s' = trace s @ evs" "list_all bookkeeping evs" by blast
  with m show ?thesis by (simp add: new_events_def)
qed

lemma corrupt_state:
  fixes s :: "'u world" and opts :: "'u config_opts"
  assumes "applied_names (db s) \<noteq> []"
  defines "s0 \<equiv> s\<lparr>config := setConfig (Some (config s)) opts\<rparr>"
  defines "s' \<equiv> snd (listCompleted Knex s0)"
  shows "list_all bookkeeping (new_events s s')"
    and "migrations_table (db s') = migrations_table (db s)"
    and "next_id (db s') = next_id (db s)"
    and "user_data (db s') = user_data (db s)"
    and "lock_table (db s')
       = Some (case lock_table (db s) of None \<Rightarrow> [0] | Some [] \<Rightarrow> [0] | Some (v # vs) \<Rightarrow> v # vs)"
    and "\<And>v vs. lock_table (db s) = Some (v # vs) \<Longrightarrow> db s' = db s"
proof -
  from assms(1) obtain rows where r: "migrations_table (db s) = Some rows"
    by (cases "migrations_table (db s)") (simp_all add: applied_names_def applied_rows_def)
  have d: "db s' = db (snd (ensureTable Knex s0))"
    unfolding s'_def by (rule listCompleted_run(2))
  have d0: "db s0 = db s" "trace s0 = trace s" by (simp_all add: s0_def)
  from listCompleted_bookkeeping [of s0]
  show "list_all bookkeeping (new_events s s')"
    by (simp add: new_events_def s'_def d0)
  show "migrations_table (db s') = migrations_table (db s)"
    unfolding d using ensureTable_run(2) [of Knex s0] r d0 by (simp add: applied_rows_def)
  show "next_id (db s') = next_id (db s)"
    unfolding d using ensureTable_next_id [of s0 rows Knex] r d0 by simp
  show "user_data (db s') = user_data (db s)"
    unfolding d using ensureTable_run(4) [of Knex s0] d0 by simp
  show "lock_table (db s')
       = Some (case lock_table (db s) of None \<Rightarrow> [0] | Some [] \<Rightarrow> [0] | Some (v # vs) \<Rightarrow> v # vs)"
    unfolding d using ensureTable_run(3) [of Knex s0] d0 by simp
  show "db s' = db s" if "lock_table (db s) = Some (v # vs)" for v vs
    unfolding d using ensureTable_same [of s0 rows v vs Knex] r that d0 by simp
qed

text \<open>
  C6 (as the code has it). When some applied name is not among the defined names,
  \<^verbatim>\<open>latest\<close> and \<^verbatim>\<open>rollback\<close> fail with the corrupt-directory error, whose message contains
  every applied name that is not defined. Up to the failure no migration has run and no
  migration record has been written; the migrations table, its id counter and the user
  data are what they were, and the value of an existing lock row is not changed. The one
  change the store can see is the repair of \<^verbatim>\<open>_ensureTable\<close>, which runs before the
  validation: a missing lock table is created and a lock table without rows gets the row
  0. With a lock row in place the store is unchanged.
\<close>

theorem corrupt_directory_stops:
  fixes s :: "'u world"
  assumes "difference (applied_names (db s)) (listAll_of (setConfig (Some (config s)) opts)) = diff"
    and "diff \<noteq> []"
    and "run = latest \<or> run = rollback"
  shows "fst (run opts s) = Inl (Error (corrupt_message diff))
       \<and> (\<forall>n \<in> set diff. sublist n (corrupt_message diff))
       \<and> list_all bookkeeping (new_events s (snd (run opts s)))
       \<and> migrations_table (db (snd (run opts s))) = migrations_table (db s)
       \<and> next_id (db (snd (run opts s))) = next_id (db s)
       \<and> user_data (db (snd (run opts s))) = user_data (db s)
       \<and> lock_table (db (snd (run opts s)))
           = Some (case lock_table (db s) of
                     None \<Rightarrow> [0] | Some [] \<Rightarrow> [0] | Some (v # vs) \<Rightarrow> v # vs)
       \<and> (\<forall>v vs. lock_table (db s) = Some (v # vs) \<longrightarrow> db (snd (run opts s)) = db s)"
proof -
  let ?s' = "snd (listCompleted Knex (s\<lparr>config := setConfig (Some (config s)) opts\<rparr>))"
  have "run opts s = (Inl (Error (corrupt_message diff)), ?s')"
    using assms(3) corrupt_stops [OF assms(1,2)]
    by (auto simp: latest_def rollback_def)
  moreover from assms(1,2) have "applied_names (db s) \<noteq> []"
    by (auto simp: difference_def)
  ultimately show ?thesis
    using corrupt_state [where s = s and opts = opts] sublist_corrupt_message [of _ diff]
    by simp
qed

theorem corrupt_directory_stops_witness:
  "fst (latest no_opts (ex_world [(''a.js'', ex_migration)]
          (ex_store [ex_record 1 ''a.js'' 1, ex_record 2 ''gone.js'' 1] [0])))
     = Inl (Error ''The migration directory is corrupt, the following files are missing: gone.js'')
   \<and> db (snd (rollback no_opts (ex_world [(''a.js'', ex_migration)]
          (ex_store [ex_record 1 ''a.js'' 1, ex_record 2 ''gone.js'' 1] [0]))))
     = ex_store [ex_record 1 ''a.js'' 1, ex_record 2 ''gone.js'' 1] [0]"
  using corrupt_directory_stops [of
      "ex_world [(''a.js'', ex_migration)]
          (ex_store [ex_record 1 ''a.js'' 1, ex_record 2 ''gone.js'' 1] [0])"
      no_opts "[''gone.js'']" latest]
    corrupt_directory_stops [of
      "ex_world [(''a.js'', ex_migration)]
          (ex_store [ex_record 1 ''a.js'' 1, ex_record 2 ''gone.js'' 1] [0])"
      no_opts "[''gone.js'']" rollback]
  by (simp add: ex_defs Migrator_def applied_names_def applied_rows_def difference_def
      listAll_of_def object_keys_def path_extname_def path_basename_def setConfig_def assign_def
      CONFIG_DEFAULT_def no_opts_def corrupt_message_def Let_def)

text \<open>
  C6 as stated fails: on a lock table without rows (the warning of \<^verbatim>\<open>_runBatch\<close> tells the
  operator to delete them) \<^verbatim>\<open>latest\<close> inserts the lock row before it fails.
\<close>

theorem corrupt_directory_counterexample:
  "fst (latest no_opts (ex_world [] (ex_store [ex_record 1 ''gone.js'' 1] [])))
     = Inl (Error ''The migration directory is corrupt, the following files are missing: gone.js'')
   \<and> lock_table (db (ex_world [] (ex_store [ex_record 1 ''gone.js'' 1] []))) = Some []
   \<and> lock_table (db (snd (latest no_opts (ex_world [] (ex_store [ex_record 1 ''gone.js'' 1] [])))))
       = Some [0]
   \<and> filter is_lock_write (trace (snd (latest no_opts
         (ex_world [] (ex_store [ex_record 1 ''gone.js'' 1] [])))))
       = [Query Knex (InsertLock 0)]"
  by (simp add: run_defs ex_defs)


section \<open>What a batch executes\<close>

lemma exec_names_append [simp]: "exec_names (xs @ ys) = exec_names xs @ exec_names ys"
  by (induction xs rule: exec_names.induct) simp_all

lemma exec_names_bookkeeping: "list_all bookkeeping evs \<Longrightarrow> exec_names evs = []"
  by (induction evs rule: exec_names.induct) simp_all

lemma benign_bookkeeping: "benign bookkeeping"
  by (simp add: benign_def)

lemma benign_exec_free: "benign (\<lambda>ev. exec_names [ev] = [])"
  unfolding benign_def
proof (intro allI impI)
  fix ev assume "bookkeeping ev"
  then show "exec_names [ev] = []" by (cases ev) simp_all
qed

lemma exec_free_list: "list_all (\<lambda>ev. exec_names [ev] = []) evs \<Longrightarrow> exec_names evs = []"
proof (induction evs)
  case Nil
  then show ?case by simp
next
  case (Cons ev evs)
  then have "exec_names [ev] = []" "exec_names evs = []" by simp_all
  then show ?case using exec_names_append [of "[ev]" evs] by simp
qed

text \<open>The steps of a batch that only keep the books add no run of a migration.\<close>

lemma quiet_step:
  assumes "adds (config s) (\<lambda>ev. exec_names [ev] = []) m" and "m s = (r, s')"
  obtains evs where "config s' = config s" "trace s' = trace s @ evs" "exec_names evs = []"
  using addsD [OF assms(1) refl assms(2)] exec_free_list by metis

lemma runBatch_try_Inr:
  assumes "runBatch_try ms d trx s = (Inr r, s')"
  obtains s1 completed s2 vs s3 maxb s4 s5 y where
    "getLock trx s = (Inr (), s1)"
    "(case trx of Some t \<Rightarrow> listCompleted (Trx t) | None \<Rightarrow> resolve []) s1 = (Inr completed, s2)"
    "validate_all (difference ms completed) s2 = (Inr vs, s3)"
    "latestBatchNumber trx s3 = (Inr maxb, s4)"
    "waterfallBatch (if d = Up then maxb + 1 else maxb) (difference ms completed) d trx s4
       = (Inr r, s5)"
    "freeLock trx s5 = (Inr y, s')"
  using assms unfolding runBatch_try_def tap_p_Inr then_p_Inr Let_def by auto

lemma validate_all_Inr:
  assumes "validate_all ms s = (Inr vs, s')"
  shows "s' = s" and "validate_each (config s) ms = Inr vs"
  using assms
  by (auto simp: validate_all_def with_config_def reject_def resolve_def split: sum.splits)

lemma invoke_Inr:
  assumes "invoke migration d c nm s = (Inr p, s')"
  shows "trace s' = trace s @ [Exec c nm d]"
  using assms
  by (auto simp: invoke_def emit_def split: option.splits prod.splits)

lemma warnPromise_invoke_Inr:
  assumes "warnPromise (invoke migration d c nm) nm s = (Inr y, s')"
  shows "\<exists>evs. trace s' = trace s @ evs \<and> exec_names evs = [nm]"
proof -
  from assms obtain p s1 where i: "invoke migration d c nm s = (Inr p, s1)"
    and w: "(if \<not> p then warn (''migration '' @ nm @ '' did not return a promise'')
             else resolve ()) s1 = (Inr y, s')"
    unfolding warnPromise_def then_p_Inr by blast
  from w have "trace s' = trace s1 \<or> (\<exists>msg. trace s' = trace s1 @ [Warn msg])"
    by (auto simp: warn_def resolve_def emit_def split: if_splits)
  with invoke_Inr [OF i] show ?thesis by auto
qed

lemma knex_transaction_Inr:
  assumes "knex_transaction fn s = (Inr v, s')"
  obtains s1 where
    "fn (next_trx s) (emit (Begin (next_trx s)) (s\<lparr>next_trx := Suc (next_trx s)\<rparr>)) = (Inr v, s1)"
    "s' = emit (Commit (next_trx s)) s1"
  using assms
  by (auto simp: knex_transaction_def Let_def split: prod.splits sum.splits)

lemma run_migration_Inr:
  assumes "run_migration cfg d trx nm s = (Inr y, s')"
  shows "\<exists>evs. trace s' = trace s @ evs \<and> exec_names evs = [nm]"
proof (cases "trx = None
    \<and> useTransaction (map_of (migrationModules cfg) nm) (Some (disableTransactions cfg))")
  case True
  with assms have "knex_transaction
     (\<lambda>t. warnPromise (invoke (map_of (migrationModules cfg) nm) d (Trx t) nm) nm) s
       = (Inr y, s')"
    by (simp add: run_migration_def transaction_m_def Let_def)
  then obtain s1 where
    f: "warnPromise (invoke (map_of (migrationModules cfg) nm) d (Trx (next_trx s)) nm) nm
          (emit (Begin (next_trx s)) (s\<lparr>next_trx := Suc (next_trx s)\<rparr>)) = (Inr y, s1)"
    and e: "s' = emit (Commit (next_trx s)) s1"
    by (rule knex_transaction_Inr)
  from warnPromise_invoke_Inr [OF f] obtain evs where
    "trace s1 = trace s @ Begin (next_trx s) # evs" "exec_names evs = [nm]"
    by (auto simp: emit_def)
  with e have "trace s' = trace s @ (Begin (next_trx s) # evs @ [Commit (next_trx s)])"
    "exec_names (Begin (next_trx s) # evs @ [Commit (next_trx s)]) = [nm]"
    by (simp_all add: emit_def)
  then show ?thesis by blast
next
  case False
  with assms have "warnPromise (invoke (map_of (migrationModules cfg) nm) d (conn_of trx) nm) nm s
       = (Inr y, s')"
    by (auto simp: run_migration_def Let_def)
  then show ?thesis by (rule warnPromise_invoke_Inr)
qed

lemma persist_record_trace:
  "trace (snd (persist_record b d trx nm s))
     = trace s @ [Query (conn_of trx)
          (case d of Up \<Rightarrow> InsertRecord nm b (now s) | Down \<Rightarrow> DeleteRecord nm)]"
  by (cases d; cases "migrations_table (db s)")
    (simp_all add: persist_record_def insert_record_def delete_record_def emit_def Let_def)

lemma waterfall_Inr:
  assumes "waterfall cfg b d trx log ms s = (Inr log', s')"
  shows "log' = log @ ms \<and> (\<exists>evs. trace s' = trace s @ evs \<and> exec_names evs = ms)"
  using assms
proof (induction ms arbitrary: log s)
  case Nil
  then show ?case by (simp add: resolve_def)
next
  case (Cons nm rest)
  from Cons.prems obtain x s1 y s2 where
    r: "run_migration cfg d trx nm s = (Inr x, s1)"
    and p: "persist_record b d trx nm s1 = (Inr y, s2)"
    and w: "waterfall cfg b d trx (log @ [nm]) rest s2 = (Inr log', s')"
    unfolding waterfall.simps then_p_Inr by blast
  from run_migration_Inr [OF r] obtain e1 where
    1: "trace s1 = trace s @ e1" "exec_names e1 = [nm]" by blast
  from persist_record_trace [of b d trx nm s1] p obtain q where
    2: "trace s2 = trace s1 @ [Query (conn_of trx) q]" by simp
  from Cons.IH [OF w] obtain e3 where
    3: "log' = (log @ [nm]) @ rest" "trace s' = trace s2 @ e3" "exec_names e3 = rest" by blast
  from 1 2 3 have "trace s' = trace s @ (e1 @ [Query (conn_of trx) q] @ e3)"
    "exec_names (e1 @ [Query (conn_of trx) q] @ e3) = nm # rest"
    by (cases q; simp)+
  with 3(1) show ?case by auto
qed

lemma waterfallBatch_Inr:
  assumes "waterfallBatch b ms d trx s = (Inr (b', log), s')"
  shows "b' = b \<and> log = ms \<and> (\<exists>evs. trace s' = trace s @ evs \<and> exec_names evs = ms)"
proof -
  let ?s = "s\<lparr>activeMigration := (if ms = [] then activeMigration s else Some (last ms))\<rparr>"
  from assms obtain l s1 where
    w: "waterfall (config s) b d trx [] ms ?s = (Inr l, s1)"
    and r: "resolve (b, l) s1 = (Inr (b', log), s')"
    unfolding waterfallBatch_def then_p_Inr by blast
  from waterfall_Inr [OF w] r show ?thesis by (auto simp: resolve_def)
qed


lemma getLock_keeps:
  assumes "getLock trx s = (r, s1)"
  shows "migrations_table (db s1) = migrations_table (db s)"
    and "user_data (db s1) = user_data (db s)"
    and "next_id (db s1) = next_id (db s)"
  using assms
  by (cases trx; cases "lock_table (db s)";
      auto simp: getLock_def knex_transaction_def catch_p_def then_p_def
      isLocked_def select_lock_def reject_def resolve_def emit_def lockMigrations_def
      update_lock_def Let_def split: list.splits if_splits)+

lemma applied_names_cong:
  "migrations_table d' = migrations_table d \<Longrightarrow> applied_names d' = applied_names d"
  by (simp add: applied_names_def applied_rows_def)

lemma difference_Nil [simp]: "difference xs [] = xs"
  by (simp add: difference_def)

lemma completed_under_lock:
  assumes "(case trx of Some t \<Rightarrow> listCompleted (Trx t) | None \<Rightarrow> resolve []) s1
             = (Inr completed, s2)"
  shows "completed = (case trx of None \<Rightarrow> [] | Some t \<Rightarrow> applied_names (db s1))"
    and "\<exists>evs. trace s2 = trace s1 @ evs \<and> exec_names evs = []"
    and "config s2 = config s1"
proof -
  have a: "adds (config s1) (\<lambda>ev. exec_names [ev] = [])
      (case trx of Some t \<Rightarrow> listCompleted (Trx t) | None \<Rightarrow> resolve [])"
    by (cases trx) (simp_all add: adds_resolve adds_listCompleted [OF benign_exec_free])
  from quiet_step [OF a assms]
  show "\<exists>evs. trace s2 = trace s1 @ evs \<and> exec_names evs = []" "config s2 = config s1"
    by blast+
  show "completed = (case trx of None \<Rightarrow> [] | Some t \<Rightarrow> applied_names (db s1))"
  proof (cases trx)
    case None
    with assms show ?thesis by (simp add: resolve_def)
  next
    case (Some t)
    with assms listCompleted_run(1) [of "Trx t" s1] show ?thesis by simp
  qed
qed

lemma runBatch_log:
  assumes "runBatch ms d trx s = (Inr (b, log), s')"
  shows "log = (case trx of None \<Rightarrow> ms | Some t \<Rightarrow> difference ms (applied_names (db s)))
       \<and> exec_names (new_events s s') = log"
proof -
  from runBatch_Inr [OF assms] have "runBatch_try ms d trx s = (Inr (b, log), s')" .
  then obtain s1 completed s2 vs s3 maxb s4 s5 y where
    g: "getLock trx s = (Inr (), s1)"
    and c: "(case trx of Some t \<Rightarrow> listCompleted (Trx t) | None \<Rightarrow> resolve []) s1
              = (Inr completed, s2)"
    and v: "validate_all (difference ms completed) s2 = (Inr vs, s3)"
    and l: "latestBatchNumber trx s3 = (Inr maxb, s4)"
    and w: "waterfallBatch (if d = Up then maxb + 1 else maxb) (difference ms completed) d trx s4
              = (Inr (b, log), s5)"
    and f: "freeLock trx s5 = (Inr y, s')"
    by (rule runBatch_try_Inr)
  from quiet_step [OF adds_getLock [OF benign_exec_free] g] obtain e1 where
    1: "trace s1 = trace s @ e1" "exec_names e1 = []" by blast
  from completed_under_lock [OF c] obtain e2 where
    2: "trace s2 = trace s1 @ e2" "exec_names e2 = []"
    and cmp: "completed = (case trx of None \<Rightarrow> [] | Some t \<Rightarrow> applied_names (db s1))"
    by blast
  from validate_all_Inr(1) [OF v] have 3: "s3 = s2" .
  from quiet_step [OF adds_latestBatchNumber [OF benign_exec_free] l] obtain e4 where
    4: "trace s4 = trace s3 @ e4" "exec_names e4 = []" by blast
  from waterfallBatch_Inr [OF w] obtain e5 where
    5: "log = difference ms completed" "trace s5 = trace s4 @ e5" "exec_names e5 = log"
    by blast
  from quiet_step [OF adds_freeLock [OF benign_exec_free] f] obtain e6 where
    6: "trace s' = trace s5 @ e6" "exec_names e6 = []" by blast
  from 1 2 3 4 5 6 have "trace s' = trace s @ (e1 @ e2 @ e4 @ e5 @ e6)"
    "exec_names (e1 @ e2 @ e4 @ e5 @ e6) = log" by simp_all
  then have "exec_names (new_events s s') = log" by (simp add: new_events_append)
  moreover have "applied_names (db s1) = applied_names (db s)"
    by (rule applied_names_cong) (rule getLock_keeps(1) [OF g])
  with cmp 5(1) have "log = (case trx of None \<Rightarrow> ms
      | Some t \<Rightarrow> difference ms (applied_names (db s)))"
    by (cases trx) simp_all
  ultimately show ?thesis by simp
qed

lemma benign_runs_only: "benign (runs_only T)"
  unfolding benign_def
proof (intro allI impI)
  fix ev assume "bookkeeping ev"
  then show "runs_only T ev" by (cases ev) simp_all
qed

lemma runs_only_names: "list_all (runs_only T) evs \<Longrightarrow> set (exec_names evs) \<subseteq> T"
  by (induction evs rule: exec_names.induct) simp_all

lemma adds_run_migration_only:
  assumes "nm \<in> T"
  shows "adds cfg (runs_only T) (run_migration cfg' d trx nm)"
  unfolding run_migration_def Let_def transaction_m_def
  by (intro adds_if adds_transaction adds_warnPromise adds_invoke benign_runs_only)
    (simp_all add: assms)

lemma adds_persist_record_only: "adds cfg (runs_only T) (persist_record b d trx nm)"
proof -
  have i: "adds cfg (runs_only T) (insert_record (conn_of trx) nm b t)" for t
    by (rule adds_insert_record) simp
  have dl: "adds cfg (runs_only T) (delete_record (conn_of trx) nm)"
    by (rule adds_delete_record) simp
  show ?thesis
    using i dl unfolding adds_def persist_record_def by (cases d) simp_all
qed

lemma adds_waterfall_only:
  assumes "set ms \<subseteq> T"
  shows "adds cfg (runs_only T) (waterfall cfg' b d trx log ms)"
  using assms
proof (induction ms arbitrary: log)
  case Nil
  show ?case by (simp add: adds_resolve)
next
  case (Cons nm rest)
  then have "nm \<in> T" "set rest \<subseteq> T" by simp_all
  then show ?case
    by (simp, intro adds_then adds_run_migration_only adds_persist_record_only Cons.IH)
qed

lemma adds_waterfallBatch_only:
  assumes "set ms \<subseteq> T"
  shows "adds cfg (runs_only T) (waterfallBatch b ms d trx)"
proof (rule addsI)
  fix s :: "'a world"
  assume c: "config s = cfg"
  let ?m = "then_p (waterfall cfg b d trx [] ms) (\<lambda>log. resolve (b, log))"
  let ?s = "s\<lparr>activeMigration := (if ms = [] then activeMigration s else Some (last ms))\<rparr>"
  have a: "adds cfg (runs_only T) ?m"
    by (intro adds_then adds_waterfall_only assms adds_resolve)
  have e: "waterfallBatch b ms d trx s = ?m ?s"
    using c by (simp add: waterfallBatch_def)
  have c': "config ?s = cfg" using c by simp
  obtain r s' where m: "?m ?s = (r, s')" by (cases "?m ?s")
  from addsD [OF a c' m] obtain evs where
    "config s' = cfg" "trace s' = trace ?s @ evs" "list_all (runs_only T) evs"
    by blast
  with e m show "config (snd (waterfallBatch b ms d trx s)) = cfg"
    "\<exists>evs. trace (snd (waterfallBatch b ms d trx s)) = trace s @ evs
        \<and> list_all (runs_only T) evs"
    by auto
qed

text \<open>The batch after the applied names have been read.\<close>

lemma adds_batch_rest:
  assumes "set (difference ms completed) \<subseteq> T"
  shows "adds cfg (runs_only T)
     (let migrations = difference ms completed in
        then_p (validate_all migrations) (\<lambda>_.
        then_p (latestBatchNumber trx) (\<lambda>batchNo.
        let batchNo = (if d = Up then batchNo + 1 else batchNo) in
        waterfallBatch batchNo migrations d trx)))"
  unfolding Let_def
  by (intro adds_then adds_validate_all adds_latestBatchNumber benign_runs_only
      adds_waterfallBatch_only assms)

lemma adds_at_run: "adds cfg P m \<Longrightarrow> config s = cfg \<Longrightarrow> adds_at cfg P m s"
  by (simp add: adds_def adds_at_def)

lemma adds_at_then:
  assumes "config s = cfg" and "adds cfg P m"
    and "\<And>x s1. m s = (Inr x, s1) \<Longrightarrow> config s1 = cfg \<Longrightarrow> adds_at cfg P (f x) s1"
  shows "adds_at cfg P (then_p m f) s"
proof -
  obtain r s1 where m: "m s = (r, s1)" by (cases "m s")
  from addsD [OF assms(2,1) m] obtain evs1 where
    1: "config s1 = cfg" "trace s1 = trace s @ evs1" "list_all P evs1" by blast
  show ?thesis
  proof (cases r)
    case (Inl e)
    with m 1 show ?thesis by (simp add: then_p_def adds_at_def)
  next
    case (Inr x)
    from assms(3) [OF m [unfolded Inr] 1(1)] obtain evs2 where
      2: "config (snd (f x s1)) = cfg" "trace (snd (f x s1)) = trace s1 @ evs2"
        "list_all P evs2"
      unfolding adds_at_def by blast
    from 1 2 have "trace (snd (f x s1)) = trace s @ (evs1 @ evs2)" "list_all P (evs1 @ evs2)"
      by simp_all
    with m Inr 2(1) show ?thesis unfolding adds_at_def then_p_def by auto
  qed
qed

lemma adds_at_then_all:
  assumes "adds_at cfg P m s" and "\<And>x. adds cfg P (f x)"
  shows "adds_at cfg P (then_p m f) s"
proof -
  obtain r s1 where m: "m s = (r, s1)" by (cases "m s")
  from assms(1) m obtain evs1 where
    1: "config s1 = cfg" "trace s1 = trace s @ evs1" "list_all P evs1"
    unfolding adds_at_def by auto
  show ?thesis
  proof (cases r)
    case (Inl e)
    with m 1 show ?thesis by (simp add: then_p_def adds_at_def)
  next
    case (Inr x)
    obtain r2 s2 where f: "f x s1 = (r2, s2)" by (cases "f x s1")
    from addsD [OF assms(2) 1(1) f] obtain evs2 where
      2: "config s2 = cfg" "trace s2 = trace s1 @ evs2" "list_all P evs2" by blast
    from 1 2 have "trace s2 = trace s @ (evs1 @ evs2)" "list_all P (evs1 @ evs2)"
      by simp_all
    with m Inr f 2(1) show ?thesis unfolding adds_at_def then_p_def by auto
  qed
qed

lemma adds_at_tap:
  assumes "adds_at cfg P m s" and "\<And>x. adds cfg P (f x)"
  shows "adds_at cfg P (tap_p m f) s"
  unfolding tap_p_def
  by (intro adds_at_then_all assms(1) adds_then assms(2) adds_resolve)

lemma adds_at_catch:
  assumes "adds_at cfg P m s" and "\<And>e. adds cfg P (h e)"
  shows "adds_at cfg P (catch_p m h) s"
proof -
  obtain r s1 where m: "m s = (r, s1)" by (cases "m s")
  from assms(1) m obtain evs1 where
    1: "config s1 = cfg" "trace s1 = trace s @ evs1" "list_all P evs1"
    unfolding adds_at_def by auto
  show ?thesis
  proof (cases r)
    case (Inr x)
    with m 1 show ?thesis by (simp add: catch_p_def adds_at_def)
  next
    case (Inl e)
    obtain r2 s2 where f: "h e s1 = (r2, s2)" by (cases "h e s1")
    from addsD [OF assms(2) 1(1) f] obtain evs2 where
      2: "config s2 = cfg" "trace s2 = trace s1 @ evs2" "list_all P evs2" by blast
    from 1 2 have "trace s2 = trace s @ (evs1 @ evs2)" "list_all P (evs1 @ evs2)"
      by simp_all
    with m Inl f 2(1) show ?thesis unfolding adds_at_def catch_p_def by auto
  qed
qed

lemma runBatch_runs_only:
  "set (exec_names (new_events s (snd (runBatch ms d trx s))))
     \<subseteq> set (case trx of None \<Rightarrow> ms | Some t \<Rightarrow> difference ms (applied_names (db s)))"
proof -
  define T where
    "T = set (case trx of None \<Rightarrow> ms | Some t \<Rightarrow> difference ms (applied_names (db s)))"
  let ?P = "runs_only T"
  let ?cfg = "config s"
  let ?LC = "case trx of Some t \<Rightarrow> listCompleted (Trx t) | None \<Rightarrow> resolve []"
  note b = benign_runs_only [of T]
  have lc: "adds ?cfg ?P ?LC"
    by (cases trx) (simp_all add: adds_resolve adds_listCompleted [OF benign_runs_only])
  have "adds_at ?cfg ?P (runBatch ms d trx) s"
    unfolding runBatch_def runBatch_try_def
  proof (intro adds_at_catch adds_at_tap adds_at_then refl adds_getLock b lc adds_freeLock
      adds_runBatch_catch)
    fix x s1 y s2
    assume g: "getLock trx s = (Inr x, s1)" and c1: "config s1 = config s"
      and l: "?LC s1 = (Inr y, s2)" and c2: "config s2 = config s"
    have "applied_names (db s1) = applied_names (db s)"
      by (rule applied_names_cong) (rule getLock_keeps(1) [OF g])
    with completed_under_lock(1) [OF l]
    have "set (difference ms y) \<subseteq> T" unfolding T_def by (cases trx) simp_all
    from adds_at_run [OF adds_batch_rest [OF this] c2]
    show "adds_at (config s) (runs_only T)
        (let migrations = difference ms y
         in then_p (validate_all migrations)
              (\<lambda>_. then_p (latestBatchNumber trx)
                     (\<lambda>batchNo.
                         let batchNo = if d = Up then batchNo + 1 else batchNo
                         in waterfallBatch batchNo migrations d trx))) s2" .
  qed
  then obtain evs where "trace (snd (runBatch ms d trx s)) = trace s @ evs"
    "list_all ?P evs" unfolding adds_at_def by blast
  then have "set (exec_names (new_events s (snd (runBatch ms d trx s)))) \<subseteq> T"
    by (simp add: new_events_append runs_only_names)
  then show ?thesis unfolding T_def .
qed

text \<open>
  C3 (as the code has it). Whatever its outcome, a batch runs only migrations among the
  input names, and with an outer transaction only those that are not among the applied
  names read again under the lock. A batch that succeeds has executed, in this order and
  once each, the names it returns: with an outer transaction the input names without the
  applied names read again under the lock, and without an outer transaction all the input
  names, since the list of applied names is then not read again.
\<close>

theorem batch_executes_remaining:
  "set (exec_names (new_events s (snd (runBatch ms d trx s))))
     \<subseteq> set (case trx of None \<Rightarrow> ms | Some t \<Rightarrow> difference ms (applied_names (db s)))
   \<and> (\<forall>b log s'. runBatch ms d trx s = (Inr (b, log), s') \<longrightarrow>
        log = (case trx of None \<Rightarrow> ms | Some t \<Rightarrow> difference ms (applied_names (db s)))
        \<and> exec_names (new_events s s') = log)"
  using runBatch_runs_only [of s ms d trx] runBatch_log [of ms d trx s] by blast

theorem batch_executes_remaining_witness:
  "fst (runBatch [''a.js'', ''b.js''] Up (Some 5)
         (ex_world [(''a.js'', ex_migration), (''b.js'', ex_migration)]
            (ex_store [ex_record 1 ''a.js'' 1] [0]))) = Inr (2, [''b.js''])
   \<and> exec_names (new_events
         (ex_world [(''a.js'', ex_migration), (''b.js'', ex_migration)]
            (ex_store [ex_record 1 ''a.js'' 1] [0]))
         (snd (runBatch [''a.js'', ''b.js''] Up (Some 5)
           (ex_world [(''a.js'', ex_migration), (''b.js'', ex_migration)]
              (ex_store [ex_record 1 ''a.js'' 1] [0]))))) = [''b.js'']"
proof -
  let ?w = "ex_world [(''a.js'', ex_migration), (''b.js'', ex_migration)]
            (ex_store [ex_record 1 ''a.js'' 1] [0])"
  have f: "fst (runBatch [''a.js'', ''b.js''] Up (Some 5) ?w) = Inr (2, [''b.js''])"
    by (simp add: run_defs ex_defs)
  then have "runBatch [''a.js'', ''b.js''] Up (Some 5) ?w
      = (Inr (2, [''b.js'']), snd (runBatch [''a.js'', ''b.js''] Up (Some 5) ?w))"
    by (simp add: prod_eq_iff)
  with batch_executes_remaining [of ?w "[''a.js'', ''b.js'']" Up "Some 5"] f
  show ?thesis by blast
qed

text \<open>
  C3 as stated fails without an outer transaction: the batch runs a migration that the
  table records as applied.
\<close>

theorem batch_reruns_applied_counterexample:
  "fst (runBatch [''a.js''] Up None
         (ex_world [(''a.js'', ex_migration)] (ex_store [ex_record 1 ''a.js'' 1] [0])))
     = Inr (2, [''a.js''])
   \<and> exec_names (trace (snd (runBatch [''a.js''] Up None
         (ex_world [(''a.js'', ex_migration)] (ex_store [ex_record 1 ''a.js'' 1] [0])))))
     = [''a.js'']
   \<and> difference [''a.js'']
        (applied_names (db (ex_world [(''a.js'', ex_migration)]
           (ex_store [ex_record 1 ''a.js'' 1] [0])))) = []"
  by (simp add: run_defs ex_defs applied_names_def applied_rows_def)


section \<open>Latest, then rollback\<close>

lemma invoke_keeps:
  assumes "modules_keep_records cfg"
  shows "migrations_table (db (snd (invoke (map_of (migrationModules cfg) nm) d c nm s)))
       = migrations_table (db s)"
proof (cases "map_of (migrationModules cfg) nm")
  case None
  then show ?thesis by (simp add: invoke_def)
next
  case (Some m)
  show ?thesis
  proof (cases "case d of Up \<Rightarrow> up m | Down \<Rightarrow> down m")
    case None
    with Some show ?thesis by (simp add: invoke_def)
  next
    case f: (Some f)
    then have "up m = Some f \<or> down m = Some f" by (cases d) simp_all
    with assms Some have "keeps_records f" unfolding modules_keep_records_def by blast
    then have "migrations_table (snd (f (db s))) = migrations_table (db s)"
      by (simp add: keeps_records_def)
    with Some f show ?thesis by (auto simp: invoke_def emit_def split: prod.splits)
  qed
qed

lemma warnPromise_keeps:
  assumes "\<And>s. migrations_table (db (snd (v s))) = migrations_table (db s)"
  shows "migrations_table (db (snd (warnPromise v nm s))) = migrations_table (db s)"
  using assms [of s]
  by (cases "v s") (auto simp: warnPromise_def then_p_def warn_def resolve_def emit_def
      split: sum.splits)

lemma transaction_keeps:
  assumes "\<And>t s. migrations_table (db (snd (fn t s))) = migrations_table (db s)"
  shows "migrations_table (db (snd (knex_transaction fn s))) = migrations_table (db s)"
  using assms [of "next_trx s" "emit (Begin (next_trx s)) (s\<lparr>next_trx := Suc (next_trx s)\<rparr>)"]
  by (auto simp: knex_transaction_def Let_def emit_def split: prod.splits sum.splits)

lemma run_migration_keeps:
  assumes "modules_keep_records cfg"
  shows "migrations_table (db (snd (run_migration cfg d trx nm s))) = migrations_table (db s)"
  unfolding run_migration_def Let_def transaction_m_def
  by (simp add: transaction_keeps warnPromise_keeps invoke_keeps [OF assms])

lemma persist_record_Up:
  assumes "persist_record b Up trx nm s = (Inr y, s')" and "migrations_table (db s) = Some rows"
  shows "migrations_table (db s')
       = Some (rows @ [\<lparr>rec_id = next_id (db s), name = nm, batch = b, migration_time = now s\<rparr>])"
  using assms by (auto simp: persist_record_def insert_record_def emit_def Let_def)

lemma persist_record_Down:
  assumes "persist_record b Down trx nm s = (Inr y, s')" and "migrations_table (db s) = Some rows"
  shows "migrations_table (db s') = Some (filter (\<lambda>r. name r \<noteq> nm) rows)"
  using assms by (auto simp: persist_record_def delete_record_def emit_def Let_def)

lemma persist_record_exists:
  assumes "persist_record b d trx nm s = (Inr y, s')"
  shows "\<exists>rows. migrations_table (db s) = Some rows"
  using assms
  by (cases d; cases "migrations_table (db s)")
    (auto simp: persist_record_def insert_record_def delete_record_def emit_def Let_def)

lemma waterfall_Up:
  assumes "modules_keep_records cfg"
    and "waterfall cfg b Up trx log ms s = (Inr log', s')"
    and "migrations_table (db s) = Some rows"
  shows "\<exists>new. migrations_table (db s') = Some (rows @ new) \<and> map name new = ms
            \<and> (\<forall>r \<in> set new. batch r = b)"
  using assms(2,3)
proof (induction ms arbitrary: log s rows)
  case Nil
  then show ?case by (simp add: resolve_def)
next
  case (Cons nm rest)
  from Cons.prems(1) obtain x s1 y s2 where
    r: "run_migration cfg Up trx nm s = (Inr x, s1)"
    and p: "persist_record b Up trx nm s1 = (Inr y, s2)"
    and w: "waterfall cfg b Up trx (log @ [nm]) rest s2 = (Inr log', s')"
    unfolding waterfall.simps then_p_Inr by blast
  from run_migration_keeps [OF assms(1), of Up trx nm s] r Cons.prems(2)
  have "migrations_table (db s1) = Some rows" by simp
  from persist_record_Up [OF p this] obtain rec where
    2: "migrations_table (db s2) = Some (rows @ [rec])" "name rec = nm" "batch rec = b"
    by simp
  from Cons.IH [OF w 2(1)] obtain new where
    "migrations_table (db s') = Some ((rows @ [rec]) @ new)" "map name new = rest"
    "\<forall>r \<in> set new. batch r = b" by blast
  with 2 have "migrations_table (db s') = Some (rows @ (rec # new))
      \<and> map name (rec # new) = nm # rest \<and> (\<forall>r \<in> set (rec # new). batch r = b)"
    by simp
  then show ?case by (rule exI [of _ "rec # new"])
qed

lemma waterfall_Down:
  assumes "modules_keep_records cfg"
    and "waterfall cfg b Down trx log ms s = (Inr log', s')"
    and "migrations_table (db s) = Some rows"
  shows "migrations_table (db s') = Some (filter (\<lambda>r. name r \<notin> set ms) rows)"
  using assms(2,3)
proof (induction ms arbitrary: log s rows)
  case Nil
  then show ?case by (simp add: resolve_def)
next
  case (Cons nm rest)
  from Cons.prems(1) obtain x s1 y s2 where
    r: "run_migration cfg Down trx nm s = (Inr x, s1)"
    and p: "persist_record b Down trx nm s1 = (Inr y, s2)"
    and w: "waterfall cfg b Down trx (log @ [nm]) rest s2 = (Inr log', s')"
    unfolding waterfall.simps then_p_Inr by blast
  from run_migration_keeps [OF assms(1), of Down trx nm s] r Cons.prems(2)
  have "migrations_table (db s1) = Some rows" by simp
  from persist_record_Down [OF p this]
  have 2: "migrations_table (db s2) = Some (filter (\<lambda>r. name r \<noteq> nm) rows)" .
  from Cons.IH [OF w 2]
  have "migrations_table (db s')
      = Some (filter (\<lambda>r. name r \<notin> set rest) (filter (\<lambda>r. name r \<noteq> nm) rows))" .
  also have "filter (\<lambda>r. name r \<notin> set rest) (filter (\<lambda>r. name r \<noteq> nm) rows)
      = filter (\<lambda>r. name r \<notin> set (nm # rest)) rows"
    by (induction rows) auto
  finally show ?case .
qed

lemma waterfallBatch_records:
  assumes "modules_keep_records (config s)"
    and "waterfallBatch b ms d trx s = (Inr r, s')"
    and "migrations_table (db s) = Some rows"
  shows "d = Up \<Longrightarrow> \<exists>new. migrations_table (db s') = Some (rows @ new) \<and> map name new = ms
            \<and> (\<forall>r \<in> set new. batch r = b)"
    and "d = Down \<Longrightarrow> migrations_table (db s') = Some (filter (\<lambda>r. name r \<notin> set ms) rows)"
proof -
  let ?s = "s\<lparr>activeMigration := (if ms = [] then activeMigration s else Some (last ms))\<rparr>"
  from assms(2) obtain l s1 where
    w: "waterfall (config s) b d trx [] ms ?s = (Inr l, s1)"
    and r: "resolve (b, l) s1 = (Inr r, s')"
    unfolding waterfallBatch_def then_p_Inr by blast
  from r have e: "s' = s1" by (simp add: resolve_def)
  have m: "migrations_table (db ?s) = Some rows" using assms(3) by simp
  show "\<exists>new. migrations_table (db s') = Some (rows @ new) \<and> map name new = ms
            \<and> (\<forall>r \<in> set new. batch r = b)" if "d = Up"
    using waterfall_Up [OF assms(1) _ m] w that e by blast
  show "migrations_table (db s') = Some (filter (\<lambda>r. name r \<notin> set ms) rows)" if "d = Down"
    using waterfall_Down [OF assms(1) _ m] w that e by blast
qed

lemma latestBatchNumber_Inr:
  assumes "latestBatchNumber trx s = (Inr maxb, s')"
  shows "db s' = db s"
    and "\<exists>rows. migrations_table (db s) = Some rows \<and> maxb + 1 = next_batch rows"
  using assms
  by (auto simp: latestBatchNumber_def then_p_def select_max_batch_def resolve_def emit_def
      next_batch_def Let_def split: option.splits)

lemma freeLock_keeps:
  assumes "freeLock trx s = (r, s')"
  shows "migrations_table (db s') = migrations_table (db s)"
  using assms
  by (auto simp: freeLock_def update_lock_def emit_def Let_def split: option.splits)

lemma completed_keeps:
  assumes "(case trx of Some t \<Rightarrow> listCompleted (Trx t) | None \<Rightarrow> resolve []) s1
             = (Inr completed, s2)"
    and "migrations_table (db s1) = Some rows"
  shows "migrations_table (db s2) = Some rows"
proof (cases trx)
  case None
  with assms show ?thesis by (simp add: resolve_def)
next
  case (Some t)
  with assms have "s2 = snd (listCompleted (Trx t) s1)" by simp
  with listCompleted_run(2) [of "Trx t" s1] ensureTable_run(2) [of "Trx t" s1] assms(2)
  show ?thesis by (simp add: applied_rows_def)
qed

lemma runBatch_records:
  assumes "runBatch ms d trx s = (Inr (b, log), s')"
    and "modules_keep_records (config s)"
    and "migrations_table (db s) = Some rows"
  shows "d = Up \<Longrightarrow> \<exists>new. migrations_table (db s') = Some (rows @ new) \<and> map name new = log
            \<and> (\<forall>r \<in> set new. batch r = next_batch rows)"
    and "d = Down \<Longrightarrow> migrations_table (db s') = Some (filter (\<lambda>r. name r \<notin> set log) rows)"
proof -
  from runBatch_Inr [OF assms(1)] have "runBatch_try ms d trx s = (Inr (b, log), s')" .
  then obtain s1 completed s2 vs s3 maxb s4 s5 y where
    g: "getLock trx s = (Inr (), s1)"
    and c: "(case trx of Some t \<Rightarrow> listCompleted (Trx t) | None \<Rightarrow> resolve []) s1
              = (Inr completed, s2)"
    and v: "validate_all (difference ms completed) s2 = (Inr vs, s3)"
    and l: "latestBatchNumber trx s3 = (Inr maxb, s4)"
    and w: "waterfallBatch (if d = Up then maxb + 1 else maxb) (difference ms completed) d trx s4
              = (Inr (b, log), s5)"
    and f: "freeLock trx s5 = (Inr y, s')"
    by (rule runBatch_try_Inr)
  from quiet_step [OF adds_getLock [OF benign_exec_free] g]
  have c1: "config s1 = config s" by blast
  from completed_under_lock(3) [OF c] c1 have c2: "config s2 = config s" by simp
  from validate_all_Inr(1) [OF v] have 3: "s3 = s2" .
  from quiet_step [OF adds_latestBatchNumber [OF benign_exec_free] l] c2 3
  have c4: "config s4 = config s" by metis
  have m1: "migrations_table (db s1) = Some rows"
    using getLock_keeps(1) [OF g] assms(3) by simp
  have m2: "migrations_table (db s2) = Some rows" by (rule completed_keeps [OF c m1])
  from latestBatchNumber_Inr [OF l] m2 3
  have m4: "migrations_table (db s4) = Some rows" and nb: "maxb + 1 = next_batch rows"
    by auto
  have k: "modules_keep_records (config s4)" using assms(2) c4 by simp
  from waterfallBatch_Inr [OF w] have lg: "log = difference ms completed" by blast
  show "\<exists>new. migrations_table (db s') = Some (rows @ new) \<and> map name new = log
            \<and> (\<forall>r \<in> set new. batch r = next_batch rows)" if "d = Up"
    using waterfallBatch_records(1) [OF k w m4 that] freeLock_keeps [OF f] that nb lg
    by auto
  show "migrations_table (db s') = Some (filter (\<lambda>r. name r \<notin> set log) rows)" if "d = Down"
    using waterfallBatch_records(2) [OF k w m4 that] freeLock_keeps [OF f] lg by simp
qed


lemma applied_rows_Some: "migrations_table d = Some rows \<Longrightarrow> applied_rows d = rows"
  by (simp add: applied_rows_def)

lemma set_applied_names: "set (applied_names d) = name ` set (applied_rows d)"
  by (simp add: applied_names_def)

lemma listCompleted_state:
  fixes s :: "'u world"
  defines "s1 \<equiv> snd (listCompleted Knex s)"
  shows "migrations_table (db s1) = Some (applied_rows (db s))" and "config s1 = config s"
  unfolding s1_def
  using listCompleted_run(2,3) [of Knex s] ensureTable_run(2) [of Knex s] by simp_all

lemma validated_Inr:
  assumes "tap_p migrationData validateMigrationList s = (Inr x, s')"
  shows "x = (listAll_of (config s), applied_names (db s))"
    and "s' = snd (listCompleted Knex s)"
    and "difference (applied_names (db s)) (listAll_of (config s)) = []"
  using assms unfolding tap_p_Inr migrationData_run
  by (auto simp: validateMigrationList_def Let_def reject_def resolve_def split: if_splits)

lemma difference_twice [simp]: "difference (difference xs ys) ys = difference xs ys"
  by (simp add: difference_def)

lemma latest_records:
  fixes s :: "'u world" and opts :: "'u config_opts"
  defines "cfg \<equiv> setConfig (Some (config s)) opts"
  assumes "latest opts s = (Inr r, s')" and "modules_keep_records cfg"
  shows "\<exists>new. migrations_table (db s') = Some (applied_rows (db s) @ new)
            \<and> map name new = difference (listAll_of cfg) (applied_names (db s))
            \<and> (\<forall>r \<in> set new. batch r = next_batch (applied_rows (db s)))
            \<and> snd r = map name new"
proof -
  let ?s0 = "s\<lparr>config := cfg\<rparr>"
  let ?s1 = "snd (listCompleted Knex ?s0)"
  let ?pending = "difference (listAll_of cfg) (applied_names (db s))"
  let ?rows = "applied_rows (db s)"
  from assms(2) obtain x s1 where
    t: "tap_p migrationData validateMigrationList ?s0 = (Inr x, s1)"
    and k: "(case x of (all, completed) \<Rightarrow>
       let migrations = difference all completed in
       with_config (\<lambda>cfg.
         if transactionForAll cfg migrations
         then knex_transaction (\<lambda>trx. runBatch migrations Up (Some trx))
         else runBatch migrations Up None)) s1 = (Inr r, s')"
    unfolding latest_unfold cfg_def then_p_Inr by blast
  from validated_Inr [OF t] have x: "x = (listAll_of cfg, applied_names (db s))"
    and s1: "s1 = ?s1" by simp_all
  have m1: "migrations_table (db s1) = Some ?rows" and c1: "config s1 = cfg"
    unfolding s1 using listCompleted_state [of ?s0] by simp_all
  obtain b log where r: "r = (b, log)" by (cases r)
  show ?thesis
  proof (cases "transactionForAll cfg ?pending")
    case False
    with k x c1 r have run: "runBatch ?pending Up None s1 = (Inr (b, log), s')"
      by (simp add: with_config_def Let_def)
    have kk: "modules_keep_records (config s1)" using assms(3) c1 by simp
    from runBatch_log [OF run] have lg: "log = ?pending" by simp
    from runBatch_records(1) [OF run kk m1 refl] obtain new where
      "migrations_table (db s') = Some (?rows @ new)" "map name new = log"
      "\<forall>r \<in> set new. batch r = next_batch ?rows" by blast
    with lg r show ?thesis by (intro exI [of _ new]) simp
  next
    case True
    with k x c1 r have "knex_transaction (\<lambda>trx. runBatch ?pending Up (Some trx)) s1
        = (Inr (b, log), s')"
      by (simp add: with_config_def Let_def)
    then obtain s2 where
      run: "runBatch ?pending Up (Some (next_trx s1))
              (emit (Begin (next_trx s1)) (s1\<lparr>next_trx := Suc (next_trx s1)\<rparr>))
            = (Inr (b, log), s2)"
      and e: "s' = emit (Commit (next_trx s1)) s2"
      by (rule knex_transaction_Inr)
    let ?sb = "emit (Begin (next_trx s1)) (s1\<lparr>next_trx := Suc (next_trx s1)\<rparr>)"
    have mb: "migrations_table (db ?sb) = Some ?rows" and cb: "config ?sb = cfg"
      using m1 c1 by (simp_all add: emit_def)
    have kk: "modules_keep_records (config ?sb)" using assms(3) cb by simp
    have "applied_names (db ?sb) = applied_names (db s)"
      using mb by (simp add: applied_names_def applied_rows_def)
    with runBatch_log [OF run] have lg: "log = ?pending" by simp
    from runBatch_records(1) [OF run kk mb refl] obtain new where
      "migrations_table (db s2) = Some (?rows @ new)" "map name new = log"
      "\<forall>r \<in> set new. batch r = next_batch ?rows" by blast
    with lg r e show ?thesis by (intro exI [of _ new]) (simp add: emit_def)
  qed
qed

lemma latest_config: "config (snd (latest opts s)) = setConfig (Some (config s)) opts"
proof -
  let ?cfg = "setConfig (Some (config s)) opts"
  let ?P = "\<lambda>ev :: event. True"
  have b: "benign ?P" by (simp add: benign_def)
  have rb: "adds ?cfg ?P (runBatch ms d trx)" for ms d trx
  proof -
    have "adds ?cfg (batch_event_ok ?cfg trx) (runBatch ms d trx)" by (rule adds_runBatch)
    then show ?thesis unfolding adds_def by (auto simp: list_all_iff)
  qed
  let ?rest = "then_p (tap_p migrationData validateMigrationList) (\<lambda>(all, completed).
       let migrations = difference all completed in
       with_config (\<lambda>cfg.
         if transactionForAll cfg migrations
         then knex_transaction (\<lambda>trx. runBatch migrations Up (Some trx))
         else runBatch migrations Up None))"
  have "adds ?cfg ?P ?rest"
    unfolding Let_def split_def
    by (intro adds_then adds_tap adds_migrationData adds_validateMigrationList b
        adds_with_config adds_if adds_transaction rb) simp_all
  then show ?thesis unfolding latest_unfold adds_def by simp
qed

lemma rollback_records:
  fixes s :: "'u world" and opts :: "'u config_opts"
  defines "cfg \<equiv> setConfig (Some (config s)) opts"
  assumes "rollback opts s = (Inr r, s')" and "modules_keep_records cfg"
  shows "migrations_table (db s')
       = Some (filter (\<lambda>r. name r \<notin> name ` {x \<in> set (applied_rows (db s)).
                 max_batch (applied_rows (db s)) = Some (batch x)}) (applied_rows (db s)))"
    and "snd r = map name (rev (sort_key rec_id
           (filter (\<lambda>x. max_batch (applied_rows (db s)) = Some (batch x))
              (applied_rows (db s)))))"
proof -
  let ?s0 = "s\<lparr>config := cfg\<rparr>"
  let ?rows = "applied_rows (db s)"
  from assms(2) obtain x s1 last_rows s2 where
    t: "tap_p migrationData validateMigrationList ?s0 = (Inr x, s1)"
    and g: "getLastBatch s1 = (Inr last_rows, s2)"
    and run: "runBatch (map name last_rows) Down None s2 = (Inr r, s')"
    unfolding rollback_def cfg_def then_p_Inr set_config_def by auto
  from validated_Inr(2) [OF t] have s1: "s1 = snd (listCompleted Knex ?s0)" .
  have m1: "migrations_table (db s1) = Some ?rows" and c1: "config s1 = cfg"
    unfolding s1 using listCompleted_state [of ?s0] by simp_all
  from g m1 c1 have m2: "migrations_table (db s2) = Some ?rows" and c2: "config s2 = cfg"
    and lr: "last_rows = rev (sort_key rec_id
               (filter (\<lambda>x. max_batch ?rows = Some (batch x)) ?rows))"
    by (auto simp: getLastBatch_def select_last_batch_def emit_def Let_def)
  obtain b log where r: "r = (b, log)" by (cases r)
  have kk: "modules_keep_records (config s2)" using assms(3) c2 by simp
  from runBatch_log [OF run [unfolded r]] have lg: "log = map name last_rows" by simp
  with runBatch_records(2) [OF run [unfolded r] kk m2 refl] lr
  show "migrations_table (db s')
       = Some (filter (\<lambda>r. name r \<notin> name ` {x \<in> set ?rows.
                 max_batch ?rows = Some (batch x)}) ?rows)" by simp
  from lg lr r
  show "snd r = map name (rev (sort_key rec_id
           (filter (\<lambda>x. max_batch ?rows = Some (batch x)) ?rows)))" by simp
qed


lemma batch_below_next:
  assumes "r \<in> set rows"
  shows "batch r < next_batch rows"
proof -
  from assms have "rows \<noteq> []" by auto
  moreover from assms have "batch r \<le> Max (set (map batch rows))" by simp
  ultimately show ?thesis by (simp add: next_batch_def max_batch_def)
qed

lemma max_batch_append_new:
  assumes "new \<noteq> []" and "\<forall>r \<in> set new. batch r = next_batch rows"
  shows "max_batch (rows @ new) = Some (next_batch rows)"
proof -
  let ?B = "next_batch rows"
  from assms obtain r where "r \<in> set new" "batch r = ?B" by (cases new) auto
  then have in_set: "?B \<in> set (map batch (rows @ new))" by force
  have "x \<le> ?B" if "x \<in> set (map batch (rows @ new))" for x
    using that assms(2) batch_below_next [of _ rows] by (auto simp: less_imp_le)
  with in_set have "Max (set (map batch (rows @ new))) = ?B"
    by (intro Max_eqI) auto
  with assms(1) show ?thesis by (simp add: max_batch_def)
qed

lemma last_batch_is_new:
  assumes "new \<noteq> []" and "\<forall>r \<in> set new. batch r = next_batch rows"
  shows "{x \<in> set (rows @ new). max_batch (rows @ new) = Some (batch x)} = set new"
  unfolding max_batch_append_new [OF assms]
  using assms(2) batch_below_next [of _ rows] by force

lemma round_trip_rows:
  assumes "new \<noteq> []" and "\<forall>r \<in> set new. batch r = next_batch rows"
    and "set (map name new) \<inter> name ` set rows = {}"
  shows "filter (\<lambda>r. name r \<notin> name ` {x \<in> set (rows @ new).
            max_batch (rows @ new) = Some (batch x)}) (rows @ new) = rows"
proof -
  have "filter (\<lambda>r. name r \<notin> name ` set new) rows = rows"
    using assms(3) by (intro filter_True) auto
  moreover have "filter (\<lambda>r. name r \<notin> name ` set new) new = []"
    by (simp add: filter_empty_conv)
  ultimately show ?thesis unfolding last_batch_is_new [OF assms(1,2)] by simp
qed

lemma ex_keeps: "keeps_records ex_up" "keeps_records ex_down"
  by (simp_all add: keeps_records_def ex_up_def ex_down_def)

lemma ex_modules_keep:
  "modules_keep_records (setConfig (Some (config
      (ex_world [(''a.js'', ex_migration), (''b.js'', ex_migration)] d))) no_opts)"
  using ex_keeps
  by (auto simp: modules_keep_records_def ex_world_def Migrator_def setConfig_def assign_def
      no_opts_def ex_migration_def split: if_splits)


text \<open>
  C4 (as the code has it). When \<^verbatim>\<open>latest\<close> succeeds with at least one migration pending
  and \<^verbatim>\<open>rollback\<close> succeeds after it, and no migration operation of the configurations in
  force changes the migrations table, the rows of the migrations table after the rollback
  are the rows before \<^verbatim>\<open>latest\<close>. The rollback reverts the rows of the greatest batch in
  descending order of their ids, and these are the migrations \<^verbatim>\<open>latest\<close> applied.
\<close>

theorem latest_then_rollback_restores:
  fixes s :: "'u world"
  assumes "latest opts s = (Inr r1, s1)"
    and "rollback opts' s1 = (Inr r2, s2)"
    and "difference (listAll_of (setConfig (Some (config s)) opts)) (applied_names (db s)) \<noteq> []"
    and "modules_keep_records (setConfig (Some (config s)) opts)"
    and "modules_keep_records (setConfig (Some (setConfig (Some (config s)) opts)) opts')"
  shows "applied_rows (db s2) = applied_rows (db s)
       \<and> snd r2 = map name (rev (sort_key rec_id
           (filter (\<lambda>x. max_batch (applied_rows (db s1)) = Some (batch x))
              (applied_rows (db s1)))))
       \<and> set (snd r2) = set (snd r1)"
proof -
  let ?cfg = "setConfig (Some (config s)) opts"
  let ?rows = "applied_rows (db s)"
  let ?pending = "difference (listAll_of ?cfg) (applied_names (db s))"
  from latest_records [OF assms(1,4)] obtain new where
    m1: "migrations_table (db s1) = Some (?rows @ new)"
    and n: "map name new = ?pending"
    and b: "\<forall>r \<in> set new. batch r = next_batch ?rows"
    and l1: "snd r1 = map name new"
    by blast
  from n assms(3) have ne: "new \<noteq> []" by auto
  have c1: "config s1 = ?cfg" using latest_config [of opts s] assms(1) by simp
  have r1: "applied_rows (db s1) = ?rows @ new" by (rule applied_rows_Some [OF m1])
  have disj: "set (map name new) \<inter> name ` set ?rows = {}"
    unfolding n by (auto simp: difference_def set_applied_names)
  have k: "modules_keep_records (setConfig (Some (config s1)) opts')"
    using assms(5) c1 by simp
  from rollback_records(1) [OF assms(2) k]
  have "migrations_table (db s2)
       = Some (filter (\<lambda>r. name r \<notin> name ` {x \<in> set (?rows @ new).
                 max_batch (?rows @ new) = Some (batch x)}) (?rows @ new))"
    by (simp add: r1)
  then have "migrations_table (db s2) = Some ?rows"
    by (simp only: round_trip_rows [OF ne b disj])
  then have a: "applied_rows (db s2) = ?rows" by (rule applied_rows_Some)
  note o = rollback_records(2) [OF assms(2) k]
  have "set (snd r2) = name ` {x \<in> set (?rows @ new).
      max_batch (?rows @ new) = Some (batch x)}"
    unfolding o r1 by auto
  then have "set (snd r2) = set (snd r1)"
    unfolding last_batch_is_new [OF ne b] l1 by simp
  with a o show ?thesis by simp
qed

theorem latest_then_rollback_restores_witness:
  "fst (latest no_opts ex_two) = Inr (2, [''b.js''])
   \<and> fst (rollback no_opts (snd (latest no_opts ex_two))) = Inr (2, [''b.js''])
   \<and> applied_rows (db (snd (rollback no_opts (snd (latest no_opts ex_two)))))
       = applied_rows (db ex_two)"
proof -
  have lf: "fst (latest no_opts ex_two) = Inr (2, [''b.js''])"
    by (simp add: run_defs ex_defs ex_two_def)
  have rf: "fst (rollback no_opts (snd (latest no_opts ex_two))) = Inr (2, [''b.js''])"
    by (simp add: run_defs ex_defs ex_two_def)
  have l: "latest no_opts ex_two = (Inr (2, [''b.js'']), snd (latest no_opts ex_two))"
    using lf by (simp add: prod_eq_iff)
  have r: "rollback no_opts (snd (latest no_opts ex_two))
      = (Inr (2, [''b.js'']), snd (rollback no_opts (snd (latest no_opts ex_two))))"
    using rf by (simp add: prod_eq_iff)
  have p: "difference (listAll_of (setConfig (Some (config ex_two)) no_opts))
      (applied_names (db ex_two)) \<noteq> []"
    by (simp add: run_defs ex_defs ex_two_def applied_names_def applied_rows_def)
  have k: "modules_keep_records (setConfig (Some (config ex_two)) no_opts)"
    unfolding ex_two_def by (rule ex_modules_keep)
  have k': "modules_keep_records
      (setConfig (Some (setConfig (Some (config ex_two)) no_opts)) no_opts)"
    using k by simp
  from latest_then_rollback_restores [OF l r p k k'] lf rf show ?thesis by blast
qed

text \<open>
  C4 as stated fails when nothing is pending: \<^verbatim>\<open>latest\<close> succeeds without applying anything
  and \<^verbatim>\<open>rollback\<close> then reverts the batch that was applied before.
\<close>

theorem latest_then_rollback_counterexample:
  "fst (latest no_opts ex_one) = Inr (2, [])
   \<and> fst (rollback no_opts (snd (latest no_opts ex_one))) = Inr (1, [''a.js''])
   \<and> applied_rows (db (snd (rollback no_opts (snd (latest no_opts ex_one))))) = []
   \<and> applied_rows (db ex_one) = [ex_record 1 ''a.js'' 1]
   \<and> set (applied_names (db ex_one)) \<subseteq> set (listAll_of (config ex_one))"
  by (simp add: run_defs ex_defs ex_one_def applied_rows_def applied_names_def)


end
